theory Spec2Isabelle
  imports Complex_Main "HOL-Library.Char_ord" "HOL-Library.List_Lexorder" "HOL-Library.AList"
begin

section \<open>JSON values as the build script sees them\<close>

text \<open>
  \<^verbatim>\<open>scripts/build-data.mjs\<close> reads its catalogs with \<^verbatim>\<open>JSON.parse\<close>. A parsed value is a
  tree: \<^verbatim>\<open>null\<close>, a boolean, a number, a string, an array or an object. A JavaScript
  number is a double; the finite ones are modelled by the rationals (every finite double
  is one; \<^verbatim>\<open>-0\<close> and \<^verbatim>\<open>0\<close> are identified, which no operation of the script
  distinguishes), the three others (\<^verbatim>\<open>JSON.parse("1e999")\<close> is \<^verbatim>\<open>Infinity\<close>) are
  constructors of their own. A string is a list of code units; the model has the
  code units below 256. An object is the list of its own properties, keys distinct,
  in the order of their creation.
\<close>

datatype jsnum = Finite rat | NaN | PosInfinity | NegInfinity

datatype json =
    JNull
  | JBool bool
  | JNum jsnum
  | JStr string
  | JArr "json list"
  | JObj "(string \<times> json) list"

text \<open>The errors the script can raise, as values.\<close>

datatype namespace = Amiibo | Skylander

datatype error =
    TypeError
  | MalformedBase string
  | MalformedPatch "string list"
  | DuplicateRecord namespace string
  | CircularStructure
  | SyntaxError
  | IOError

text \<open>
  \<^verbatim>\<open>e?.k\<close>: the own property \<open>k\<close> of an object, \<^verbatim>\<open>undefined\<close> (here \<open>None\<close>)
  when it is absent or when \<open>e\<close> is \<^verbatim>\<open>null\<close> or a primitive. The script only reads the
  names \<^verbatim>\<open>head\<close>, \<^verbatim>\<open>tail\<close>, \<^verbatim>\<open>type\<close>, \<^verbatim>\<open>image\<close>, \<^verbatim>\<open>name\<close>, \<^verbatim>\<open>sig\<close>,
  \<^verbatim>\<open>figureId\<close>, \<^verbatim>\<open>variant\<close>, \<^verbatim>\<open>amiiboSeries\<close>, \<^verbatim>\<open>character\<close>, \<^verbatim>\<open>gameSeries\<close>,
  \<^verbatim>\<open>gameSeriesName\<close>, \<^verbatim>\<open>game\<close>, \<^verbatim>\<open>amiibo\<close> and \<^verbatim>\<open>skylanders\<close>, none of which is
  inherited from a prototype of a parsed value, so own properties are all there is.
\<close>

fun getProp :: "json \<Rightarrow> string \<Rightarrow> json option" where
  "getProp (JObj kvs) k = map_of kvs k"
| "getProp _ k = None"

text \<open>\<^verbatim>\<open>x ?? d\<close>: \<open>d\<close> when \<open>x\<close> is \<^verbatim>\<open>undefined\<close> or \<^verbatim>\<open>null\<close>.\<close>

fun nullish :: "json option \<Rightarrow> json \<Rightarrow> json" where
  "nullish None d = d"
| "nullish (Some JNull) d = d"
| "nullish (Some v) d = v"

section \<open>Image path normalizer\<close>

text \<open>
  \<^verbatim>\<open>path.posix.basename\<close> of Node: trailing slashes are dropped, then the part after
  the last remaining slash is returned (the empty string when nothing remains).
\<close>

definition basename :: "string \<Rightarrow> string" where
  "basename p =
     rev (takeWhile (\<lambda>c. c \<noteq> CHR ''/'') (dropWhile (\<lambda>c. c = CHR ''/'') (rev p)))"

text \<open>\<^verbatim>\<open>image.replaceAll("\\", "/")\<close>\<close>

definition replaceAll_backslash :: "string \<Rightarrow> string" where
  "replaceAll_backslash s = map (\<lambda>c. if c = CHR 0x5C then CHR ''/'' else c) s"

definition startsWith :: "string \<Rightarrow> string \<Rightarrow> bool" where
  "startsWith s p = (take (length p) s = p)"

text \<open>
  \<^verbatim>\<open>normalizeImagePath(entry)\<close>. Reading \<^verbatim>\<open>entry.image\<close> of \<^verbatim>\<open>null\<close> raises a
  TypeError; of a primitive or an array it is \<^verbatim>\<open>undefined\<close>.
\<close>

definition normalizeImagePath :: "json \<Rightarrow> error + string" where
  "normalizeImagePath entry =
     (if entry = JNull then Inl TypeError
      else
        let image = (case getProp entry ''image'' of Some (JStr s) \<Rightarrow> s | _ \<Rightarrow> '''') in
        if image = '''' then Inr ''''
        else
          let posixish = replaceAll_backslash image in
          if startsWith posixish ''images/'' then Inr posixish
          else
            let b = basename posixish in
            Inr (if b \<noteq> '''' then ''images/'' @ b else ''''))"

section \<open>Strings and numbers of the runtime\<close>

text \<open>
  \<^verbatim>\<open>String.prototype.toLowerCase\<close> on code units below 256: the ASCII capitals and the
  Latin-1 capitals (U+00C0 to U+00DE without the multiplication sign U+00D7) move up
  by 32, which sets bit 5; every other code unit stays.
\<close>

definition lowerChar :: "char \<Rightarrow> char" where
  "lowerChar c =
     (let n = (of_char c :: nat) in
      if (65 \<le> n \<and> n \<le> 90) \<or> (192 \<le> n \<and> n \<le> 222 \<and> n \<noteq> 215)
      then (case c of Char b0 b1 b2 b3 b4 b5 b6 b7 \<Rightarrow> Char b0 b1 b2 b3 b4 True b6 b7)
      else c)"

definition toLowerCase :: "string \<Rightarrow> string" where
  "toLowerCase s = map lowerChar s"

definition endsWith :: "string \<Rightarrow> string \<Rightarrow> bool" where
  "endsWith s p = (length p \<le> length s \<and> drop (length s - length p) s = p)"

text \<open>The decimal numeral of a natural number (array indices as property names).\<close>

fun decimal :: "nat \<Rightarrow> string" where
  "decimal n =
     (if n < 10 then [''0123456789'' ! n]
      else decimal (n div 10) @ [''0123456789'' ! (n mod 10)])"

text \<open>
  \<^verbatim>\<open>Number::toString\<close>. How a finite double prints (the shortest digits that read
  back) is left to the runtime: the function \<open>ns\<close> is a parameter of everything that
  prints a number, and nothing proved below depends on which function it is.
\<close>

definition numberToString :: "(rat \<Rightarrow> string) \<Rightarrow> jsnum \<Rightarrow> string" where
  "numberToString ns n =
     (case n of
        Finite r \<Rightarrow> ns r
      | NaN \<Rightarrow> ''NaN''
      | PosInfinity \<Rightarrow> ''Infinity''
      | NegInfinity \<Rightarrow> ''-Infinity'')"

text \<open>A printer for concrete runs: right on the natural numbers.\<close>

definition showNat :: "rat \<Rightarrow> string" where
  "showNat r = decimal (nat \<lfloor>r\<rfloor>)"

text \<open>
  \<^verbatim>\<open>`${v}`\<close>, the conversion of a value to a string inside a template literal. A
  string is itself; an array is its elements joined by commas, \<^verbatim>\<open>null\<close> elements
  printing as nothing; a parsed object prints as \<^verbatim>\<open>[object Object]\<close>, unless it has
  an own property \<^verbatim>\<open>toString\<close>, which is then not callable and the conversion raises
  a TypeError.
\<close>

fun toStr :: "(rat \<Rightarrow> string) \<Rightarrow> json \<Rightarrow> error + string"
  and joinElems :: "(rat \<Rightarrow> string) \<Rightarrow> json list \<Rightarrow> error + string" where
  "toStr ns JNull = Inr ''null''"
| "toStr ns (JBool b) = Inr (if b then ''true'' else ''false'')"
| "toStr ns (JNum n) = Inr (numberToString ns n)"
| "toStr ns (JStr s) = Inr s"
| "toStr ns (JArr vs) = joinElems ns vs"
| "toStr ns (JObj kvs) =
     (if ''toString'' \<in> fst ` set kvs then Inl TypeError else Inr ''[object Object]'')"
| "joinElems ns [] = Inr ''''"
| "joinElems ns (v # vs) =
     (case (case v of JNull \<Rightarrow> Inr '''' | _ \<Rightarrow> toStr ns v) of
        Inl err \<Rightarrow> Inl err
      | Inr s \<Rightarrow>
          (if vs = [] then Inr s
           else case joinElems ns vs of
                  Inl err \<Rightarrow> Inl err
                | Inr r \<Rightarrow> Inr (s @ '','' @ r)))"

section \<open>Lite projections\<close>

text \<open>
  \<^verbatim>\<open>toLiteAmiibo(entry)\<close> and \<^verbatim>\<open>toLiteSkylander(entry)\<close>: the object literal, its
  properties in the order they are written. The first property read raises a
  TypeError when the entry is \<^verbatim>\<open>null\<close>.
\<close>

definition toLiteAmiibo :: "json \<Rightarrow> error + json" where
  "toLiteAmiibo entry =
     (if entry = JNull then Inl TypeError
      else case normalizeImagePath entry of
        Inl err \<Rightarrow> Inl err
      | Inr img \<Rightarrow> Inr (JObj
          [(''amiiboSeries'', nullish (getProp entry ''amiiboSeries'') (JStr '''')),
           (''character'', nullish (getProp entry ''character'') (JStr '''')),
           (''gameSeries'', nullish (getProp entry ''gameSeries'') (JStr '''')),
           (''head'', nullish (getProp entry ''head'') (JStr '''')),
           (''image'', JStr img),
           (''name'', nullish (getProp entry ''name'') (JStr '''')),
           (''tail'', nullish (getProp entry ''tail'') (JStr '''')),
           (''type'', nullish (getProp entry ''type'') (JStr ''amiibo''))]))"

definition toLiteSkylander :: "json \<Rightarrow> error + json" where
  "toLiteSkylander entry =
     (if entry = JNull then Inl TypeError
      else case normalizeImagePath entry of
        Inl err \<Rightarrow> Inl err
      | Inr img \<Rightarrow> Inr (JObj
          [(''gameSeries'',
              nullish (getProp entry ''gameSeries'')
                (nullish (getProp entry ''gameSeriesName'')
                   (nullish (getProp entry ''game'') (JStr '''')))),
           (''figureId'', nullish (getProp entry ''figureId'') (JNum (Finite 0))),
           (''variant'', nullish (getProp entry ''variant'') (JNum (Finite 0))),
           (''sig'', nullish (getProp entry ''sig'') (JNum (Finite 0))),
           (''image'', JStr img),
           (''name'', nullish (getProp entry ''name'') (JStr '''')),
           (''type'', nullish (getProp entry ''type'') (JStr ''skylander''))]))"

section \<open>Source loader\<close>


section \<open>Patch aggregator\<close>

text \<open>
  The file system under the patches root, as \<^verbatim>\<open>fs.readdir\<close> with
  \<^verbatim>\<open>withFileTypes\<close> shows it: a directory lists named items, each a directory, a
  regular file or something else (a symbolic link, a socket). A regular file carries
  what \<^verbatim>\<open>JSON.parse\<close> makes of its text, \<open>None\<close> when the text is not JSON. A path is
  the list of its components: \<^verbatim>\<open>path.join(dir, it.name)\<close> adds one component, and
  since no file name contains the separator, \<^verbatim>\<open>f.split(path.sep)\<close> gives the components
  back.
\<close>

datatype fsnode = File "json option" | Dir "(string \<times> fsnode) list" | Special

type_synonym path = "string list"

fun listFilesRecursive :: "path \<Rightarrow> (string \<times> fsnode) list \<Rightarrow> (path \<times> json option) list" where
  "listFilesRecursive dir [] = []"
| "listFilesRecursive dir ((name, Dir sub) # items) =
     listFilesRecursive (dir @ [name]) sub @ listFilesRecursive dir items"
| "listFilesRecursive dir ((name, File c) # items) =
     (dir @ [name], c) # listFilesRecursive dir items"
| "listFilesRecursive dir ((name, Special) # items) = listFilesRecursive dir items"

text \<open>\<^verbatim>\<open>parts.lastIndexOf(x)\<close>, \<open>None\<close> for \<^verbatim>\<open>-1\<close>.\<close>

fun lastIndexOf :: "'a list \<Rightarrow> 'a \<Rightarrow> nat option" where
  "lastIndexOf [] x = None"
| "lastIndexOf (y # ys) x =
     (case lastIndexOf ys x of
        Some i \<Rightarrow> Some (Suc i)
      | None \<Rightarrow> (if y = x then Some 0 else None))"

text \<open>
  The loop over \<^verbatim>\<open>files\<close> that fills the set \<^verbatim>\<open>patchImageDirs\<close>; a JavaScript
  \<^verbatim>\<open>Set\<close> keeps its members in the order of their first insertion.
\<close>

fun collectImageDirs :: "path list \<Rightarrow> path list \<Rightarrow> path list" where
  "collectImageDirs acc [] = acc"
| "collectImageDirs acc (parts # fs) =
     (case lastIndexOf parts ''images'' of
        Some idx \<Rightarrow>
          (let imgDir = take (idx + 1) parts in
           collectImageDirs (if imgDir \<in> set acc then acc else acc @ [imgDir]) fs)
      | None \<Rightarrow> collectImageDirs acc fs)"

text \<open>
  The classification of one patch entry, \<^verbatim>\<open>looksSky\<close>.
  \<^verbatim>\<open>(e?.type ?? "").toLowerCase()\<close> raises a TypeError when the type tag is neither
  absent, \<^verbatim>\<open>null\<close> nor a string: no other value has a method of that name.
\<close>

definition isNumber :: "json option \<Rightarrow> bool" where
  "isNumber x = (case x of Some (JNum n) \<Rightarrow> True | _ \<Rightarrow> False)"

definition looksSky :: "json \<Rightarrow> error + bool" where
  "looksSky e =
     (case nullish (getProp e ''type'') (JStr '''') of
        JStr s \<Rightarrow>
          (let type = toLowerCase s in
           Inr (type = ''skylander''
                \<or> isNumber (getProp e ''figureId'')
                \<or> isNumber (getProp e ''variant'')
                \<or> isNumber (getProp e ''sig'')))
      | _ \<Rightarrow> Inl TypeError)"

text \<open>The inner loop \<^verbatim>\<open>for (const e of parsed)\<close>, pushing onto one of the two lists.\<close>

fun classifyEntries :: "json list \<times> json list \<Rightarrow> json list \<Rightarrow> error + json list \<times> json list" where
  "classifyEntries acc [] = Inr acc"
| "classifyEntries (patchAmiiboEntries, patchSkylanderEntries) (e # es) =
     (case looksSky e of
        Inl err \<Rightarrow> Inl err
      | Inr sky \<Rightarrow>
          (if sky then classifyEntries (patchAmiiboEntries, patchSkylanderEntries @ [e]) es
           else classifyEntries (patchAmiiboEntries @ [e], patchSkylanderEntries) es))"

text \<open>The outer loop \<^verbatim>\<open>for (const file of patchJsonFiles)\<close>.\<close>

fun readPatchFiles ::
  "json list \<times> json list \<Rightarrow> (path \<times> json option) list \<Rightarrow> error + json list \<times> json list" where
  "readPatchFiles acc [] = Inr acc"
| "readPatchFiles acc ((file, content) # files) =
     (case content of
        None \<Rightarrow> Inl SyntaxError
      | Some (JArr parsed) \<Rightarrow>
          (case classifyEntries acc parsed of
             Inl err \<Rightarrow> Inl err
           | Inr acc' \<Rightarrow> readPatchFiles acc' files)
      | Some _ \<Rightarrow> Inl (MalformedPatch file))"

record patches =
  patchAmiibo :: "json list"
  patchSkylander :: "json list"
  patchImageDirs :: "path list"

text \<open>
  \<^verbatim>\<open>loadPatchEntriesAndImageDirs()\<close>, given the path of the patches root and what is
  there: nothing (\<open>None\<close>), or a node of the file system. Listing something that is
  not a directory fails in \<^verbatim>\<open>fs.readdir\<close>.
\<close>

definition loadPatchEntriesAndImageDirs :: "path \<Rightarrow> fsnode option \<Rightarrow> error + patches" where
  "loadPatchEntriesAndImageDirs PATCHES_DIR patchesNode =
     (case patchesNode of
        None \<Rightarrow>
          Inr \<lparr>patchAmiibo = [], patchSkylander = [], patchImageDirs = []\<rparr>
      | Some (Dir items) \<Rightarrow>
          (let files = listFilesRecursive PATCHES_DIR items;
               patchJsonFiles = filter (\<lambda>(f, c). endsWith (toLowerCase (last f)) ''.json'') files;
               dirs = collectImageDirs [] (map fst files)
           in case readPatchFiles ([], []) patchJsonFiles of
                Inl err \<Rightarrow> Inl err
              | Inr (am, sk) \<Rightarrow>
                  Inr \<lparr>patchAmiibo = am, patchSkylander = sk, patchImageDirs = dirs\<rparr>)
      | Some _ \<Rightarrow> Inl IOError)"

section \<open>Entry merger and validator\<close>

text \<open>The first block of \<^verbatim>\<open>validateNoDuplicates\<close>: the loop over the amiibo entries.\<close>

fun validateAmiibo :: "(rat \<Rightarrow> string) \<Rightarrow> string set \<Rightarrow> json list \<Rightarrow> error + unit" where
  "validateAmiibo ns seen [] = Inr ()"
| "validateAmiibo ns seen (e # es) =
     (let head = nullish (getProp e ''head'') (JStr '''');
          tail = nullish (getProp e ''tail'') (JStr '''')
      in case toStr ns head of
           Inl err \<Rightarrow> Inl err
         | Inr hs \<Rightarrow>
             (case toStr ns tail of
                Inl err \<Rightarrow> Inl err
              | Inr ts \<Rightarrow>
                  (let key = hs @ ''-'' @ ts in
                   if head \<noteq> JStr '''' \<and> tail \<noteq> JStr '''' \<and> key \<in> seen
                   then Inl (DuplicateRecord Amiibo key)
                   else validateAmiibo ns (insert key seen) es)))"

text \<open>
  \<^verbatim>\<open>typeof x === "number" && Number.isFinite(x) ? x : null\<close>
\<close>

definition finiteNumber :: "json option \<Rightarrow> rat option" where
  "finiteNumber x = (case x of Some (JNum (Finite r)) \<Rightarrow> Some r | _ \<Rightarrow> None)"

definition skylanderKey :: "(rat \<Rightarrow> string) \<Rightarrow> json \<Rightarrow> string" where
  "skylanderKey ns e =
     (let sig = finiteNumber (getProp e ''sig'');
          figureId = finiteNumber (getProp e ''figureId'');
          variant = finiteNumber (getProp e ''variant'')
      in case sig of
           Some s \<Rightarrow> ''sig:'' @ ns s
         | None \<Rightarrow>
             ''figureId-variant:''
               @ (case figureId of Some f \<Rightarrow> ns f | None \<Rightarrow> ''?'')
               @ ''-''
               @ (case variant of Some v \<Rightarrow> ns v | None \<Rightarrow> ''?''))"

text \<open>The second block: the loop over the skylander entries.\<close>

fun validateSkylanders :: "(rat \<Rightarrow> string) \<Rightarrow> string set \<Rightarrow> json list \<Rightarrow> error + unit" where
  "validateSkylanders ns seen [] = Inr ()"
| "validateSkylanders ns seen (e # es) =
     (let key = skylanderKey ns e in
      if key \<in> seen then Inl (DuplicateRecord Skylander key)
      else validateSkylanders ns (insert key seen) es)"

definition validateNoDuplicates :: "(rat \<Rightarrow> string) \<Rightarrow> json list \<Rightarrow> json list \<Rightarrow> error + unit" where
  "validateNoDuplicates ns amiiboEntries skylanderEntries =
     (case validateAmiibo ns {} amiiboEntries of
        Inl err \<Rightarrow> Inl err
      | Inr u \<Rightarrow> validateSkylanders ns {} skylanderEntries)"

section \<open>Pipeline driver\<close>









section \<open>Canonical serializer\<close>

text \<open>
  \<^verbatim>\<open>stableJsonStringify\<close> tells objects apart by identity (the \<^verbatim>\<open>WeakSet seen\<close>), so
  its input is a value in a store: a primitive, or a reference to a node of the heap,
  an array or an object whose elements and properties are values again. Two
  references to one address are one shared node; a node that refers back to itself
  makes a cycle.
\<close>

type_synonym addr = nat

datatype jsval = VNull | VBool bool | VNum jsnum | VStr string | VRef addr

datatype node = NArr "jsval list" | NObj "(string \<times> jsval) list"

type_synonym heap = "node list"

text \<open>
  A call of \<^verbatim>\<open>sorter\<close> returns a value and leaves \<^verbatim>\<open>seen\<close> changed, or throws; the
  model returns the sorted copy (a fresh tree) with the new \<^verbatim>\<open>seen\<close>, or the error.
  The recursion follows the heap, so the model counts fuel: \<open>None\<close> is a run that
  needed more than it was given (or met an address outside the heap, which no
  JavaScript value holds).
\<close>

type_synonym 'a outcome = "(error + 'a \<times> addr set) option"

text \<open>\<^verbatim>\<open>value.map(sorter)\<close>: the elements in order, \<^verbatim>\<open>seen\<close> threaded through.\<close>

fun mapSeen ::
  "(addr set \<Rightarrow> jsval \<Rightarrow> json outcome) \<Rightarrow> addr set \<Rightarrow> jsval list \<Rightarrow> (json list) outcome" where
  "mapSeen f seen [] = Some (Inr ([], seen))"
| "mapSeen f seen (v # vs) =
     (case f seen v of
        None \<Rightarrow> None
      | Some (Inl err) \<Rightarrow> Some (Inl err)
      | Some (Inr (r, seen')) \<Rightarrow>
          (case mapSeen f seen' vs of
             None \<Rightarrow> None
           | Some (Inl err) \<Rightarrow> Some (Inl err)
           | Some (Inr (rs, seen'')) \<Rightarrow> Some (Inr (r # rs, seen''))))"

text \<open>
  \<^verbatim>\<open>out[k] = r\<close> on the plain object \<^verbatim>\<open>out\<close>: a property is created, last, or
  rewritten in place; but the name \<^verbatim>\<open>__proto__\<close> reaches the setter inherited from
  \<^verbatim>\<open>Object.prototype\<close>, which creates no own property.
\<close>

definition assignProp :: "(string \<times> json) list \<Rightarrow> string \<Rightarrow> json \<Rightarrow> (string \<times> json) list" where
  "assignProp out k r = (if k = ''__proto__'' then out else AList.update k r out)"

text \<open>
  \<^verbatim>\<open>for (const k of keys) out[k] = sorter(value[k])\<close>. Every \<open>k\<close> is a key of
  \<^verbatim>\<open>value\<close>, so \<^verbatim>\<open>value[k]\<close> is there.
\<close>

fun forKeys ::
  "(addr set \<Rightarrow> jsval \<Rightarrow> json outcome) \<Rightarrow> (string \<times> jsval) list \<Rightarrow> addr set \<Rightarrow>
   (string \<times> json) list \<Rightarrow> string list \<Rightarrow> ((string \<times> json) list) outcome" where
  "forKeys f fs seen out [] = Some (Inr (out, seen))"
| "forKeys f fs seen out (k # ks) =
     (case map_of fs k of
        None \<Rightarrow> None
      | Some v \<Rightarrow>
          (case f seen v of
             None \<Rightarrow> None
           | Some (Inl err) \<Rightarrow> Some (Inl err)
           | Some (Inr (r, seen')) \<Rightarrow> forKeys f fs seen' (assignProp out k r) ks))"

text \<open>
  \<^verbatim>\<open>sorter(value)\<close>. \<^verbatim>\<open>Object.keys(value).sort()\<close> orders the keys by their code
  units, which is the lexicographic order of \<^typ>\<open>string\<close>. An address once added to
  \<^verbatim>\<open>seen\<close> is never taken out.
\<close>

primrec sorter :: "nat \<Rightarrow> heap \<Rightarrow> addr set \<Rightarrow> jsval \<Rightarrow> json outcome" where
  "sorter 0 h seen v = None"
| "sorter (Suc n) h seen v =
     (case v of
        VNull \<Rightarrow> Some (Inr (JNull, seen))
      | VBool b \<Rightarrow> Some (Inr (JBool b, seen))
      | VNum x \<Rightarrow> Some (Inr (JNum x, seen))
      | VStr s \<Rightarrow> Some (Inr (JStr s, seen))
      | VRef a \<Rightarrow>
          (if a \<in> seen then Some (Inl CircularStructure)
           else if length h \<le> a then None
           else (case h ! a of
                   NArr vs \<Rightarrow>
                     (case mapSeen (sorter n h) (insert a seen) vs of
                        None \<Rightarrow> None
                      | Some (Inl err) \<Rightarrow> Some (Inl err)
                      | Some (Inr (rs, seen')) \<Rightarrow> Some (Inr (JArr rs, seen')))
                 | NObj fs \<Rightarrow>
                     (case forKeys (sorter n h) fs (insert a seen) [] (sort (map fst fs)) of
                        None \<Rightarrow> None
                      | Some (Inl err) \<Rightarrow> Some (Inl err)
                      | Some (Inr (out, seen')) \<Rightarrow> Some (Inr (JObj out, seen'))))))"

text \<open>
  \<^verbatim>\<open>JSON.stringify\<close> of the sorted copy. The properties of an object come in the order
  in which JavaScript enumerates them: those whose name is an array index (the decimal
  numeral, without leading zeros, of a number below \<open>2\<^sup>3\<^sup>2 - 1\<close>) first, by
  ascending number, then the others in the order of their creation.
\<close>

definition isDigit :: "char \<Rightarrow> bool" where
  "isDigit c = (48 \<le> (of_char c :: nat) \<and> (of_char c :: nat) \<le> 57)"

definition digitsValue :: "string \<Rightarrow> nat" where
  "digitsValue k = foldl (\<lambda>n c. 10 * n + (of_char c - 48)) 0 k"

definition arrayIndex :: "string \<Rightarrow> nat option" where
  "arrayIndex k =
     (if k \<noteq> [] \<and> list_all isDigit k \<and> (k = ''0'' \<or> hd k \<noteq> CHR ''0'')
         \<and> digitsValue k < 4294967295
      then Some (digitsValue k) else None)"

definition ownPropertyOrder :: "(string \<times> 'a) list \<Rightarrow> (string \<times> 'a) list" where
  "ownPropertyOrder kvs =
     sort_key (\<lambda>(k, v). case arrayIndex k of Some i \<Rightarrow> i | None \<Rightarrow> 0)
       (filter (\<lambda>(k, v). arrayIndex k \<noteq> None) kvs)
     @ filter (\<lambda>(k, v). arrayIndex k = None) kvs"

text \<open>
  A string in JSON text: between double quotes, with the quote, the backslash and the
  control characters escaped.
\<close>

definition hexDigit :: "nat \<Rightarrow> char" where
  "hexDigit n = ''0123456789abcdef'' ! n"

definition escapeChar :: "char \<Rightarrow> string" where
  "escapeChar c =
     (let n = (of_char c :: nat) in
      if n = 34 then [CHR 0x5C, CHR 0x22]
      else if n = 92 then [CHR 0x5C, CHR 0x5C]
      else if n = 8 then [CHR 0x5C, CHR ''b'']
      else if n = 12 then [CHR 0x5C, CHR ''f'']
      else if n = 10 then [CHR 0x5C, CHR ''n'']
      else if n = 13 then [CHR 0x5C, CHR ''r'']
      else if n = 9 then [CHR 0x5C, CHR ''t'']
      else if n < 32 then [CHR 0x5C] @ ''u00'' @ [hexDigit (n div 16), hexDigit (n mod 16)]
      else [c])"

definition quoteJSON :: "string \<Rightarrow> string" where
  "quoteJSON s = [CHR 0x22] @ concat (map escapeChar s) @ [CHR 0x22]"

fun joinWith :: "string \<Rightarrow> string list \<Rightarrow> string" where
  "joinWith sep [] = ''''"
| "joinWith sep [x] = x"
| "joinWith sep (x # y # ys) = x @ sep @ joinWith sep (y # ys)"

text \<open>A number that is not finite is written \<^verbatim>\<open>null\<close>.\<close>

function stringify :: "(rat \<Rightarrow> string) \<Rightarrow> json \<Rightarrow> string" where
  "stringify ns JNull = ''null''"
| "stringify ns (JBool b) = (if b then ''true'' else ''false'')"
| "stringify ns (JNum x) = (case x of Finite r \<Rightarrow> ns r | _ \<Rightarrow> ''null'')"
| "stringify ns (JStr s) = quoteJSON s"
| "stringify ns (JArr vs) = ''['' @ joinWith '','' (map (stringify ns) vs) @ '']''"
| "stringify ns (JObj kvs) =
     ''{'' @ joinWith '','' (map (\<lambda>kv. quoteJSON (fst kv) @ '':'' @ stringify ns (snd kv))
                              (ownPropertyOrder kvs)) @ ''}''"
  by pat_completeness auto
termination
proof (relation "measure (\<lambda>(ns, t). size t)")
  have elem: "size v < Suc (size_list size vs)" if "v \<in> set vs" for v :: json and vs
    using that by (induction vs) auto
  have conv: "size_prod (\<lambda>x. 0) size = (\<lambda>x :: string \<times> json. Suc (size (snd x)))"
    by (auto simp: fun_eq_iff)
  have field: "size (snd kv) < Suc (size_list (size_prod (\<lambda>x. 0) size) kvs)"
    if "kv \<in> set kvs" for kv :: "string \<times> json" and kvs
    unfolding conv using that by (induction kvs) auto
  show "wf (measure (\<lambda>(ns, t). size t))" by simp
  show "((ns, x), ns, JArr vs) \<in> measure (\<lambda>(ns, t). size t)" if "x \<in> set vs" for ns x vs
    using elem[OF that] by simp
  show "((ns, snd x), ns, JObj kvs) \<in> measure (\<lambda>(ns, t). size t)"
    if "x \<in> set (ownPropertyOrder kvs)" for ns x kvs
  proof -
    from that have "x \<in> set kvs" by (auto simp: ownPropertyOrder_def)
    from field[OF this] show ?thesis by simp
  qed
qed

text \<open>
  \<^verbatim>\<open>stableJsonStringify(obj)\<close>: a fresh \<^verbatim>\<open>seen\<close>, the sorted copy, its JSON text. The
  bytes that \<^verbatim>\<open>main\<close> hashes and writes are the UTF-8 encoding of this text.
\<close>

definition stableJsonStringify ::
  "nat \<Rightarrow> (rat \<Rightarrow> string) \<Rightarrow> heap \<Rightarrow> jsval \<Rightarrow> (error + string) option" where
  "stableJsonStringify fuel ns h obj =
     (case sorter fuel h {} obj of
        None \<Rightarrow> None
      | Some (Inl err) \<Rightarrow> Some (Inl err)
      | Some (Inr (out, seen)) \<Rightarrow> Some (Inr (stringify ns out)))"

section \<open>Notions used in the statements\<close>

text \<open>The record \<^verbatim>\<open>{image: x}\<close>.\<close>

definition image_record :: "string \<Rightarrow> json" where
  "image_record x = JObj [(''image'', JStr x)]"


text \<open>
  What the claim about the normalizer says it computes, in the words of the
  specification: the empty string for a reference that is empty or not a string, the
  reference itself (slashes forward) when it begins with \<^verbatim>\<open>images/\<close>, and
  \<^verbatim>\<open>images/\<close> followed by the final path segment in every other case.
\<close>

definition claimed_normalize :: "json option \<Rightarrow> string" where
  "claimed_normalize ref =
     (case ref of
        Some (JStr s) \<Rightarrow>
          (if s = '''' then ''''
           else let p = replaceAll_backslash s in
                if startsWith p ''images/'' then p else ''images/'' @ basename p)
      | _ \<Rightarrow> '''')"

text \<open>
  The identity pair of an amiibo record, \<^verbatim>\<open>e?.head ?? ""\<close> and \<^verbatim>\<open>e?.tail ?? ""\<close>,
  and the key \<^verbatim>\<open>`${head}-${tail}`\<close> that \<^verbatim>\<open>validateNoDuplicates\<close> makes of it.
\<close>

definition idHead :: "json \<Rightarrow> json" where
  "idHead e = nullish (getProp e ''head'') (JStr '''')"

definition idTail :: "json \<Rightarrow> json" where
  "idTail e = nullish (getProp e ''tail'') (JStr '''')"

definition amiiboKey :: "(rat \<Rightarrow> string) \<Rightarrow> json \<Rightarrow> error + string" where
  "amiiboKey ns e =
     (case toStr ns (idHead e) of
        Inl err \<Rightarrow> Inl err
      | Inr hs \<Rightarrow>
          (case toStr ns (idTail e) of
             Inl err \<Rightarrow> Inl err
           | Inr ts \<Rightarrow> Inr (hs @ ''-'' @ ts)))"

text \<open>The guard of the duplicate test: \<^verbatim>\<open>head !== "" && tail !== ""\<close>.\<close>

definition checkedId :: "json \<Rightarrow> bool" where
  "checkedId e = (idHead e \<noteq> JStr '''' \<and> idTail e \<noteq> JStr '''')"

fun isStr :: "json \<Rightarrow> bool" where
  "isStr (JStr s) = True"
| "isStr _ = False"

fun strOf :: "json \<Rightarrow> string" where
  "strOf (JStr s) = s"
| "strOf _ = ''''"

text \<open>A skylander record with no finite numeric \<^verbatim>\<open>sig\<close>, \<^verbatim>\<open>figureId\<close> or \<^verbatim>\<open>variant\<close>.\<close>

definition lacksIdentity :: "json \<Rightarrow> bool" where
  "lacksIdentity e =
     (finiteNumber (getProp e ''sig'') = None
      \<and> finiteNumber (getProp e ''figureId'') = None
      \<and> finiteNumber (getProp e ''variant'') = None)"

text \<open>A type tag that is absent, \<^verbatim>\<open>null\<close> or a string.\<close>

definition typeTagOk :: "json \<Rightarrow> bool" where
  "typeTagOk e =
     (case getProp e ''type'' of
        None \<Rightarrow> True
      | Some JNull \<Rightarrow> True
      | Some (JStr s) \<Rightarrow> True
      | _ \<Rightarrow> False)"

text \<open>
  The classification in the words of the specification: skylander when the type field
  equals \<^verbatim>\<open>skylander\<close> whatever the case of its letters, or when a numeric
  \<^verbatim>\<open>figureId\<close>, \<^verbatim>\<open>variant\<close> or \<^verbatim>\<open>sig\<close> is carried; amiibo otherwise.
\<close>

definition spec_skylander :: "json \<Rightarrow> bool" where
  "spec_skylander e =
     ((case getProp e ''type'' of
         Some (JStr s) \<Rightarrow> toLowerCase s = ''skylander''
       | _ \<Rightarrow> False)
      \<or> isNumber (getProp e ''figureId'')
      \<or> isNumber (getProp e ''variant'')
      \<or> isNumber (getProp e ''sig''))"

text \<open>A field that is absent or \<^verbatim>\<open>null\<close> in a record.\<close>

definition absent :: "json \<Rightarrow> string \<Rightarrow> bool" where
  "absent e f = (case getProp e f of None \<Rightarrow> True | Some JNull \<Rightarrow> True | Some v \<Rightarrow> False)"

text \<open>The fields of the two lite schemas.\<close>

definition liteAmiiboFields :: "string list" where
  "liteAmiiboFields =
     [''amiiboSeries'', ''character'', ''gameSeries'', ''head'', ''image'', ''name'', ''tail'']"

definition liteSkylanderFields :: "string list" where
  "liteSkylanderFields = [''gameSeries'', ''figureId'', ''variant'', ''sig'', ''image'', ''name'']"




definition scenarioPatchesDir :: path where
  "scenarioPatchesDir = ['''', ''repo'', ''resources'', ''patches'']"

definition scenarioPatchItems :: "(string \<times> fsnode) list" where
  "scenarioPatchItems =
     [(''community'', Dir
       [(''extra.JSON'', File (Some (JArr
           [JObj [(''head'', JStr ''05''), (''tail'', JStr ''B''), (''name'', JStr ''Y''),
                  (''image'', JStr ''images/sub/bar.png'')]]))),
        (''images'', Dir [(''sub'', Dir [(''bar.png'', File None)])])])]"



text \<open>
  A regular file at a relative path below a node of the file system (names in a
  directory are distinct on a real disk; the definition does not rely on it).
\<close>

fun isFileAt :: "fsnode \<Rightarrow> path \<Rightarrow> bool" where
  "isFileAt (File c) rel = (rel = [])"
| "isFileAt Special rel = False"
| "isFileAt (Dir []) rel = False"
| "isFileAt (Dir ((name, n) # items)) rel =
     ((case rel of [] \<Rightarrow> False | c # r \<Rightarrow> c = name \<and> isFileAt n r) \<or> isFileAt (Dir items) rel)"

text \<open>
  The image-source directories in the words of the claim: every directory anywhere
  under the patches root whose name is exactly \<^verbatim>\<open>images\<close>, empty or not, whatever it
  contains.
\<close>

fun listDirsRecursive :: "path \<Rightarrow> (string \<times> fsnode) list \<Rightarrow> path list" where
  "listDirsRecursive dir [] = []"
| "listDirsRecursive dir ((name, Dir sub) # items) =
     (dir @ [name]) # listDirsRecursive (dir @ [name]) sub @ listDirsRecursive dir items"
| "listDirsRecursive dir ((name, File c) # items) = listDirsRecursive dir items"
| "listDirsRecursive dir ((name, Special) # items) = listDirsRecursive dir items"

definition spec_imageDirs :: "path \<Rightarrow> (string \<times> fsnode) list \<Rightarrow> path list" where
  "spec_imageDirs dir items = filter (\<lambda>d. last d = ''images'') (listDirsRecursive dir items)"

text \<open>
  The sorted copy of a tree: what \<^verbatim>\<open>sorter\<close> makes of a value that is laid out in
  the heap as a tree.
\<close>

definition sortKeys :: "(string \<times> json) list \<Rightarrow> (string \<times> json) list" where
  "sortKeys kvs =
     foldl (\<lambda>out k. case map_of kvs k of
                         Some t \<Rightarrow> assignProp out k t
                       | None \<Rightarrow> out)
       [] (sort (map fst kvs))"

fun canon :: "json \<Rightarrow> json" where
  "canon (JArr ts) = JArr (map canon ts)"
| "canon (JObj kvs) = JObj (sortKeys (map (\<lambda>kv. (fst kv, canon (snd kv))) kvs))"
| "canon t = t"

text \<open>The height of a tree: the fuel a run on it needs is one more.\<close>

fun height :: "json \<Rightarrow> nat" where
  "height (JArr ts) = Suc (foldr max (map height ts) 0)"
| "height (JObj kvs) = Suc (foldr max (map (\<lambda>kv. height (snd kv)) kvs) 0)"
| "height t = 0"

text \<open>
  \<open>treeAt H v t R\<close>: in the heap \<open>H\<close> the value \<open>v\<close> is a JSON value as
  \<^verbatim>\<open>JSON.parse\<close> or nested literals build it, with the content \<open>t\<close> (the properties
  of each object in the order of their creation). Every array and object of it is a
  node of its own: the nodes of different elements, or of the values of different
  keys, occupy disjoint sets of addresses, and a node is not among the nodes below
  it. \<open>R\<close> is the set of all its addresses. Neither a shared node nor a cycle fits.
\<close>

inductive treeAt :: "heap \<Rightarrow> jsval \<Rightarrow> json \<Rightarrow> addr set \<Rightarrow> bool" for H where
  tNull: "treeAt H VNull JNull {}"
| tBool: "treeAt H (VBool b) (JBool b) {}"
| tNum: "treeAt H (VNum x) (JNum x) {}"
| tStr: "treeAt H (VStr s) (JStr s) {}"
| tArr: "\<lbrakk>a < length H; H ! a = NArr vs; length vs = length ts;
          \<forall>i. i < length ts \<longrightarrow> treeAt H (vs ! i) (ts ! i) (\<rho> i);
          \<forall>i j. i < length ts \<and> j < length ts \<and> i \<noteq> j \<longrightarrow> \<rho> i \<inter> \<rho> j = {};
          a \<notin> (\<Union>i<length ts. \<rho> i)\<rbrakk>
         \<Longrightarrow> treeAt H (VRef a) (JArr ts) (insert a (\<Union>i<length ts. \<rho> i))"
| tObj: "\<lbrakk>a < length H; H ! a = NObj fs; map fst fs = map fst kvs; distinct (map fst kvs);
          \<forall>k v t. map_of fs k = Some v \<and> map_of kvs k = Some t \<longrightarrow> treeAt H v t (\<rho> k);
          \<forall>k k'. k \<in> fst ` set kvs \<and> k' \<in> fst ` set kvs \<and> k \<noteq> k' \<longrightarrow> \<rho> k \<inter> \<rho> k' = {};
          a \<notin> (\<Union>k\<in>fst ` set kvs. \<rho> k)\<rbrakk>
         \<Longrightarrow> treeAt H (VRef a) (JObj kvs) (insert a (\<Union>k\<in>fst ` set kvs. \<rho> k))"

text \<open>
  Structural equality up to the order in which keys were inserted: equal primitives,
  arrays of the same length that agree element by element, objects with the same keys
  whose values agree key by key.
\<close>

inductive keyReordered :: "json \<Rightarrow> json \<Rightarrow> bool" where
  kNull: "keyReordered JNull JNull"
| kBool: "keyReordered (JBool b) (JBool b)"
| kNum: "keyReordered (JNum x) (JNum x)"
| kStr: "keyReordered (JStr s) (JStr s)"
| kArr: "\<lbrakk>length xs = length ys; \<forall>i. i < length xs \<longrightarrow> keyReordered (xs ! i) (ys ! i)\<rbrakk>
         \<Longrightarrow> keyReordered (JArr xs) (JArr ys)"
| kObj: "\<lbrakk>distinct (map fst kvs); distinct (map fst kvs'); fst ` set kvs = fst ` set kvs';
          \<forall>k t t'. map_of kvs k = Some t \<and> map_of kvs' k = Some t' \<longrightarrow> keyReordered t t'\<rbrakk>
         \<Longrightarrow> keyReordered (JObj kvs) (JObj kvs')"

text \<open>
  Two heaps that hold the same graph of nodes, address by address, the properties of
  their objects created in different orders.
\<close>

definition reorderedNode :: "node \<Rightarrow> node \<Rightarrow> bool" where
  "reorderedNode x y =
     (case (x, y) of
        (NArr vs, NArr ws) \<Rightarrow> vs = ws
      | (NObj fs, NObj gs) \<Rightarrow>
          distinct (map fst fs) \<and> distinct (map fst gs) \<and> set fs = set gs
      | _ \<Rightarrow> False)"

definition reorderedHeap :: "heap \<Rightarrow> heap \<Rightarrow> bool" where
  "reorderedHeap H1 H2 = list_all2 reorderedNode H1 H2"

text \<open>The references of a heap, from a node to the nodes its elements or properties name.\<close>

fun childValues :: "node \<Rightarrow> jsval list" where
  "childValues (NArr vs) = vs"
| "childValues (NObj fs) = map snd fs"

definition references :: "heap \<Rightarrow> (addr \<times> addr) set" where
  "references h = {(a, b). a < length h \<and> VRef b \<in> set (childValues (h ! a))}"

text \<open>
  Three small heaps. In the first two the same array \<^verbatim>\<open>[{name: "X", head: "04"}, 7]\<close>
  is laid out at different addresses, the keys of its object created in different
  orders; the third is the first with the two keys created the other way round.
\<close>

definition demoHeap1 :: heap where
  "demoHeap1 =
     [NObj [(''name'', VStr ''X''), (''head'', VStr ''04'')],
      NArr [VRef 0, VNum (Finite 7)]]"

definition demoHeap2 :: heap where
  "demoHeap2 =
     [NArr [VRef (Suc 0), VNum (Finite 7)],
      NObj [(''head'', VStr ''04''), (''name'', VStr ''X'')]]"

definition demoHeap3 :: heap where
  "demoHeap3 =
     [NObj [(''head'', VStr ''04''), (''name'', VStr ''X'')],
      NArr [VRef 0, VNum (Finite 7)]]"

text \<open>
  The content of a value, identities forgotten: the tree that is read off the heap by
  following the references, a shared node once for each place that refers to it.
  \<open>None\<close> when the fuel does not reach the leaves (as on a cycle).
\<close>

primrec contentOf :: "nat \<Rightarrow> heap \<Rightarrow> jsval \<Rightarrow> json option" where
  "contentOf 0 h v = None"
| "contentOf (Suc n) h v =
     (case v of
        VNull \<Rightarrow> Some JNull
      | VBool b \<Rightarrow> Some (JBool b)
      | VNum x \<Rightarrow> Some (JNum x)
      | VStr s \<Rightarrow> Some (JStr s)
      | VRef a \<Rightarrow>
          (if length h \<le> a then None
           else (case h ! a of
                   NArr vs \<Rightarrow> map_option JArr (those (map (contentOf n h) vs))
                 | NObj fs \<Rightarrow>
                     map_option JObj
                       (those (map (\<lambda>kv. map_option (Pair (fst kv)) (contentOf n h (snd kv))) fs)))))"

text \<open>
  One heap with two arrays of two records each. The first array, \<^verbatim>\<open>[a, a]\<close>, has the
  object \<^verbatim>\<open>a = {name: "X", head: "04"}\<close> at both places; the second, \<^verbatim>\<open>[a, b]\<close>, has
  \<^verbatim>\<open>b = {head: "04", name: "X"}\<close>, an object of its own with the keys inserted the other
  way round, at the second place.
\<close>

definition sharedHeap :: heap where
  "sharedHeap =
     [NObj [(''name'', VStr ''X''), (''head'', VStr ''04'')],
      NObj [(''head'', VStr ''04''), (''name'', VStr ''X'')],
      NArr [VRef 0, VRef 0],
      NArr [VRef 0, VRef (Suc 0)]]"










text \<open>The text that is written for \<^verbatim>\<open>[a, b]\<close> of the heap \<^const>\<open>sharedHeap\<close>.\<close>

definition sharedArtifact :: string where
  \<open>sharedArtifact = ''[{"head":"04","name":"X"},{"head":"04","name":"X"}]''\<close>

section \<open>Properties of the image path normalizer\<close>

lemma basename_no_slash: "CHR ''/'' \<notin> set (basename p)"
proof -
  have "\<forall>c \<in> set (takeWhile (\<lambda>c. c \<noteq> CHR ''/'') ys). c \<noteq> CHR ''/''" for ys :: string
    by (auto dest: set_takeWhileD)
  then show ?thesis
    unfolding basename_def by auto
qed

lemma basename_no_backslash:
  "CHR 0x5C \<notin> set p \<Longrightarrow> CHR 0x5C \<notin> set (basename p)"
  unfolding basename_def
  by (auto dest!: set_takeWhileD set_dropWhileD)

lemma replaceAll_backslash_none: "CHR 0x5C \<notin> set (replaceAll_backslash s)"
  unfolding replaceAll_backslash_def by auto

lemma replaceAll_backslash_id:
  "CHR 0x5C \<notin> set s \<Longrightarrow> replaceAll_backslash s = s"
  unfolding replaceAll_backslash_def by (induction s) auto

lemma normalizeImagePath_image_record:
  "normalizeImagePath (image_record x) =
     Inr (if x = '''' then ''''
          else if startsWith (replaceAll_backslash x) ''images/'' then replaceAll_backslash x
          else if basename (replaceAll_backslash x) \<noteq> ''''
               then ''images/'' @ basename (replaceAll_backslash x) else '''')"
  by (simp add: normalizeImagePath_def image_record_def Let_def)

text \<open>
  C7. Image path normalization is idempotent: for every string \<open>x\<close>, normalizing
  \<^verbatim>\<open>{image: x}\<close> gives a string, and normalizing a record that carries that string as
  its image gives the same string again.
\<close>

theorem normalizeImagePath_idempotent:
  "\<exists>y. normalizeImagePath (image_record x) = Inr y
     \<and> normalizeImagePath (image_record y) = Inr y"
proof -
  let ?p = "replaceAll_backslash x"
  let ?b = "basename ?p"
  consider (empty) "x = ''''"
    | (pre) "x \<noteq> ''''" "startsWith ?p ''images/''"
    | (nob) "x \<noteq> ''''" "\<not> startsWith ?p ''images/''" "?b = ''''"
    | (base) "x \<noteq> ''''" "\<not> startsWith ?p ''images/''" "?b \<noteq> ''''"
    by blast
  then show ?thesis
  proof cases
    case empty
    then show ?thesis by (simp add: normalizeImagePath_image_record)
  next
    case pre
    have "replaceAll_backslash ?p = ?p"
      by (rule replaceAll_backslash_id) (rule replaceAll_backslash_none)
    moreover have "?p \<noteq> ''''" using pre by (auto simp: replaceAll_backslash_def)
    ultimately show ?thesis using pre
      by (simp add: normalizeImagePath_image_record)
  next
    case nob
    then show ?thesis by (simp add: normalizeImagePath_image_record)
  next
    case base
    let ?y = "''images/'' @ ?b"
    have nb: "CHR 0x5C \<notin> set ?y"
      using basename_no_backslash [OF replaceAll_backslash_none, of x] by simp
    have "replaceAll_backslash ?y = ?y"
      by (rule replaceAll_backslash_id) (rule nb)
    moreover have "startsWith ?y ''images/''"
      by (simp add: startsWith_def)
    ultimately show ?thesis using base
      by (simp add: normalizeImagePath_image_record)
  qed
qed

lemma takeWhile_upto:
  "\<forall>c \<in> set xs. P c \<Longrightarrow> \<not> P x \<Longrightarrow> takeWhile P (xs @ x # r) = xs"
  by (induction xs) auto

text \<open>
  The final path segment: of \<^verbatim>\<open>d/n\<close>, where \<open>n\<close> is not empty and has no slash,
  \<^const>\<open>basename\<close> keeps \<open>n\<close>.
\<close>

lemma basename_final_segment:
  assumes "n \<noteq> ''''" and "CHR ''/'' \<notin> set n"
  shows "basename (d @ ''/'' @ n) = n"
proof -
  obtain y ys where n: "rev n = y # ys"
    using assms(1) by (cases "rev n") auto
  have y: "y \<noteq> CHR ''/''"
    using assms(2) n by (metis list.set_intros(1) set_rev)
  have "dropWhile (\<lambda>c. c = CHR ''/'') (rev (d @ ''/'' @ n)) = rev n @ CHR ''/'' # rev d"
    using n y by simp
  moreover have "takeWhile (\<lambda>c. c \<noteq> CHR ''/'') (rev n @ CHR ''/'' # rev d) = rev n"
    by (rule takeWhile_upto) (use assms(2) in auto)
  ultimately show ?thesis
    by (simp add: basename_def)
qed

text \<open>
  C6, as the claim states it, fails on a reference made of separators only: \<^verbatim>\<open>"/"\<close> is
  a non-empty string that does not begin with \<^verbatim>\<open>images/\<close>, and the claim re-roots
  its (empty) final segment as \<^verbatim>\<open>images/\<close>, where the script returns the empty string.
\<close>

theorem normalizeImagePath_separators_only:
  "normalizeImagePath (JObj [(''image'', JStr ''/'')]) = Inr ''''
   \<and> claimed_normalize (getProp (JObj [(''image'', JStr ''/'')]) ''image'') = ''images/''"
  by (simp add: normalizeImagePath_def claimed_normalize_def replaceAll_backslash_def
        startsWith_def basename_def)

text \<open>
  C6, amended. For every record (anything but \<^verbatim>\<open>null\<close>) the normalizer returns a
  string \<open>y\<close> with no backslash in it, empty or beginning with \<^verbatim>\<open>images/\<close>. When the
  image reference is a non-empty string, \<open>p\<close> being that string with every backslash
  turned into a slash: if \<open>p\<close> begins with \<^verbatim>\<open>images/\<close> then \<open>y\<close> is all of \<open>p\<close>;
  otherwise, if the final segment of \<open>p\<close> is empty (\<open>p\<close> is made of separators only)
  then \<open>y\<close> is empty; otherwise \<open>y\<close> is \<^verbatim>\<open>images/\<close> followed by that final segment,
  which has no slash in it. An empty or non-string reference gives the empty string.
\<close>

theorem normalizeImagePath_rule:
  assumes "e \<noteq> JNull"
  shows "\<exists>y. normalizeImagePath e = Inr y
     \<and> CHR 0x5C \<notin> set y
     \<and> (y = '''' \<or> startsWith y ''images/'')
     \<and> (case getProp e ''image'' of
          Some (JStr s) \<Rightarrow>
            (let p = replaceAll_backslash s in
             if s = '''' then y = ''''
             else if startsWith p ''images/'' then y = p
             else if basename p = '''' then y = ''''
             else y = ''images/'' @ basename p \<and> CHR ''/'' \<notin> set (basename p))
        | _ \<Rightarrow> y = '''')"
  using assms basename_no_slash basename_no_backslash replaceAll_backslash_none
  by (auto simp: normalizeImagePath_def Let_def startsWith_def split: option.splits json.splits)

theorem normalizeImagePath_rule_witness:
  "normalizeImagePath (JObj [(''image'', JStr (''skylanders'' @ [CHR 0x5C] @ ''tree_rex.png''))])
     = Inr ''images/tree_rex.png''
   \<and> normalizeImagePath (JObj [(''image'', JStr (''images'' @ [CHR 0x5C] @ ''sky/tree_rex.png''))])
     = Inr ''images/sky/tree_rex.png''"
  using normalizeImagePath_rule [of "JObj [(''image'', JStr (''skylanders'' @ [CHR 0x5C] @ ''tree_rex.png''))]"]
    normalizeImagePath_rule [of "JObj [(''image'', JStr (''images'' @ [CHR 0x5C] @ ''sky/tree_rex.png''))]"]
  by (simp add: replaceAll_backslash_def startsWith_def basename_def)
section \<open>Properties of the image directories of the patches\<close>

lemma isFileAt_Cons:
  "isFileAt (Dir ((name, n) # items)) rel \<longleftrightarrow>
     (\<exists>r. rel = name # r \<and> isFileAt n r) \<or> isFileAt (Dir items) rel"
  by (cases rel) simp_all

lemma listFilesRecursive_mem:
  "p \<in> fst ` set (listFilesRecursive dir items) \<longleftrightarrow>
     (\<exists>rel. p = dir @ rel \<and> isFileAt (Dir items) rel)"
proof (induction dir items arbitrary: p rule: listFilesRecursive.induct)
  case (1 dir)
  then show ?case by simp
next
  case (2 dir name sub items)
  have "(\<exists>rel. p = dir @ rel \<and> isFileAt (Dir ((name, Dir sub) # items)) rel)
      \<longleftrightarrow> (\<exists>r. p = (dir @ [name]) @ r \<and> isFileAt (Dir sub) r)
           \<or> (\<exists>rel. p = dir @ rel \<and> isFileAt (Dir items) rel)"
    unfolding isFileAt_Cons by (simp, blast)
  then show ?case
    using 2 by (simp add: image_Un del: isFileAt.simps)
next
  case (3 dir name c items)
  have "(\<exists>rel. p = dir @ rel \<and> isFileAt (Dir ((name, File c) # items)) rel)
      \<longleftrightarrow> p = dir @ [name] \<or> (\<exists>rel. p = dir @ rel \<and> isFileAt (Dir items) rel)"
    unfolding isFileAt_Cons by (simp, blast)
  then show ?case
    using 3 by (simp del: isFileAt.simps)
next
  case (4 dir name items)
  have "(\<exists>rel. p = dir @ rel \<and> isFileAt (Dir ((name, Special) # items)) rel)
      \<longleftrightarrow> (\<exists>rel. p = dir @ rel \<and> isFileAt (Dir items) rel)"
    unfolding isFileAt_Cons by simp
  then show ?case
    using 4 by (simp del: isFileAt.simps)
qed

lemma lastIndexOf_Some:
  "lastIndexOf f x = Some i \<longleftrightarrow> (\<exists>pre post. f = pre @ x # post \<and> x \<notin> set post \<and> i = length pre)"
proof (induction f arbitrary: i)
  case Nil
  then show ?case by simp
next
  case (Cons y ys)
  show ?case
  proof (cases "lastIndexOf ys x")
    case None
    then have nin: "x \<notin> set ys"
      using Cons.IH by (metis not_Some_eq split_list_last)
    show ?thesis
    proof
      assume "lastIndexOf (y # ys) x = Some i"
      then have "y = x" "i = 0" using None by (auto split: if_splits)
      then show "\<exists>pre post. y # ys = pre @ x # post \<and> x \<notin> set post \<and> i = length pre"
        using nin by (intro exI[of _ "[]"] exI[of _ ys]) simp
    next
      assume "\<exists>pre post. y # ys = pre @ x # post \<and> x \<notin> set post \<and> i = length pre"
      then obtain pre post where p: "y # ys = pre @ x # post" "x \<notin> set post" "i = length pre"
        by blast
      have "pre = []"
      proof (cases pre)
        case Nil then show ?thesis .
      next
        case (Cons a pre')
        then have "ys = pre' @ x # post" using p(1) by simp
        then show ?thesis using nin by simp
      qed
      then show "lastIndexOf (y # ys) x = Some i"
        using p None by simp
    qed
  next
    case (Some j)
    then obtain pre post where ys: "ys = pre @ x # post" "x \<notin> set post" "j = length pre"
      using Cons.IH by blast
    show ?thesis
    proof
      assume "lastIndexOf (y # ys) x = Some i"
      then have "i = Suc j" using Some by simp
      then show "\<exists>pre post. y # ys = pre @ x # post \<and> x \<notin> set post \<and> i = length pre"
        using ys by (intro exI[of _ "y # pre"] exI[of _ post]) simp
    next
      assume "\<exists>pre post. y # ys = pre @ x # post \<and> x \<notin> set post \<and> i = length pre"
      then obtain pre' post' where p: "y # ys = pre' @ x # post'" "x \<notin> set post'" "i = length pre'"
        by blast
      have "pre' \<noteq> []"
      proof
        assume "pre' = []"
        then have "ys = post'" using p(1) by simp
        then show False using p(2) ys(1) by auto
      qed
      then obtain a q where q: "pre' = a # q" by (cases pre') auto
      then have "ys = q @ x # post'" using p(1) by simp
      then have "lastIndexOf ys x = Some (length q)"
        using Cons.IH p(2) by blast
      then show "lastIndexOf (y # ys) x = Some i"
        using p(3) q by simp
    qed
  qed
qed

lemma collectImageDirs_set:
  "set (collectImageDirs acc fs) =
     set acc \<union> {take (Suc i) f | f i. f \<in> set fs \<and> lastIndexOf f ''images'' = Some i}"
proof (induction fs arbitrary: acc)
  case Nil
  then show ?case by simp
next
  case (Cons f fs)
  show ?case
  proof (cases "lastIndexOf f ''images''")
    case None
    then show ?thesis using Cons.IH[of acc] by auto
  next
    case (Some i)
    then show ?thesis
      using Cons.IH[of acc] Cons.IH[of "acc @ [take (Suc i) f]"]
      by (auto simp: Let_def)
  qed
qed

lemma collectImageDirs_distinct:
  "distinct acc \<Longrightarrow> distinct (collectImageDirs acc fs)"
  by (induction fs arbitrary: acc) (auto simp: Let_def split: option.splits)


lemma append_eq_split_after:
  assumes "x \<notin> set P" and "P @ rel = pre @ x # post"
  shows "\<exists>r. pre = P @ r \<and> rel = r @ x # post"
proof -
  from assms(2) obtain us where
    "(P = pre @ us \<and> us @ rel = x # post) \<or> (P @ us = pre \<and> rel = us @ x # post)"
    unfolding append_eq_append_conv2 by blast
  then show ?thesis
  proof
    assume a: "P = pre @ us \<and> us @ rel = x # post"
    have "us = []"
    proof (cases us)
      case Nil then show ?thesis .
    next
      case (Cons u us')
      then have "u = x" using a by simp
      then show ?thesis using a assms(1) Cons by simp
    qed
    then show ?thesis using a by simp
  next
    assume "P @ us = pre \<and> rel = us @ x # post"
    then show ?thesis by blast
  qed
qed

lemma take_after_prefix: "take (Suc (length pre)) (pre @ x # post) = pre @ [x]"
  by simp

lemma collected_set:
  "set (collectImageDirs [] (map fst (listFilesRecursive P items))) =
     {pre @ [''images''] | pre post. ''images'' \<notin> set post
        \<and> (\<exists>rel. isFileAt (Dir items) rel \<and> P @ rel = pre @ ''images'' # post)}"
  (is "?L = ?R")
proof (rule set_eqI)
  fix d
  have "d \<in> ?L \<longleftrightarrow>
        (\<exists>f i. f \<in> fst ` set (listFilesRecursive P items) \<and> lastIndexOf f ''images'' = Some i
             \<and> d = take (Suc i) f)"
    unfolding collectImageDirs_set by auto
  also have "\<dots> \<longleftrightarrow>
        (\<exists>f pre post. f \<in> fst ` set (listFilesRecursive P items) \<and> f = pre @ ''images'' # post
             \<and> ''images'' \<notin> set post \<and> d = pre @ [''images''])"
    unfolding lastIndexOf_Some by (metis take_after_prefix)
  also have "\<dots> \<longleftrightarrow> d \<in> ?R"
    unfolding listFilesRecursive_mem by blast
  finally show "d \<in> ?L \<longleftrightarrow> d \<in> ?R" .
qed

lemma loadPatch_imageDirs:
  "loadPatchEntriesAndImageDirs P (Some (Dir items)) = Inr p \<Longrightarrow>
   patchImageDirs p = collectImageDirs [] (map fst (listFilesRecursive P items))"
  by (auto simp: loadPatchEntriesAndImageDirs_def Let_def split: sum.splits prod.splits)

text \<open>
  What the loader collects. When the patches load, the collected paths are without
  duplicates, and they are exactly the paths obtained from the regular files under the
  patches root by cutting each file's path after its last component named
  \<^verbatim>\<open>images\<close>; a file with no such component contributes nothing. So, the path of the
  root having no component of that name, a path \<^verbatim>\<open>root/r/images\<close> is collected exactly
  when a regular file lies at it or beneath it with no further component named
  \<^verbatim>\<open>images\<close> on the way down.
\<close>

theorem patchImageDirs_rule:
  assumes "loadPatchEntriesAndImageDirs P (Some (Dir items)) = Inr p"
  shows "distinct (patchImageDirs p)
     \<and> set (patchImageDirs p) =
         {pre @ [''images''] | pre post. ''images'' \<notin> set post
            \<and> (\<exists>rel. isFileAt (Dir items) rel \<and> P @ rel = pre @ ''images'' # post)}
     \<and> (''images'' \<notin> set P \<longrightarrow>
         set (patchImageDirs p) =
           {P @ r @ [''images''] | r post. ''images'' \<notin> set post
              \<and> isFileAt (Dir items) (r @ ''images'' # post)})"
proof -
  have eq: "patchImageDirs p = collectImageDirs [] (map fst (listFilesRecursive P items))"
    by (rule loadPatch_imageDirs[OF assms])
  have d: "distinct (patchImageDirs p)"
    unfolding eq by (rule collectImageDirs_distinct) simp
  have s: "set (patchImageDirs p) =
         {pre @ [''images''] | pre post. ''images'' \<notin> set post
            \<and> (\<exists>rel. isFileAt (Dir items) rel \<and> P @ rel = pre @ ''images'' # post)}"
    unfolding eq by (rule collected_set)
  have u: "set (patchImageDirs p) =
           {P @ r @ [''images''] | r post. ''images'' \<notin> set post
              \<and> isFileAt (Dir items) (r @ ''images'' # post)}" (is "_ = ?U")
    if nin: "''images'' \<notin> set P"
  proof (rule set_eqI)
    fix x
    show "x \<in> set (patchImageDirs p) \<longleftrightarrow> x \<in> ?U"
    proof
      assume "x \<in> set (patchImageDirs p)"
      then obtain pre post rel where x: "x = pre @ [''images'']" "''images'' \<notin> set post"
          "isFileAt (Dir items) rel" "P @ rel = pre @ ''images'' # post"
        unfolding s by blast
      from append_eq_split_after[OF nin x(4)] obtain r where "pre = P @ r" "rel = r @ ''images'' # post"
        by blast
      then show "x \<in> ?U" using x by auto
    next
      assume "x \<in> ?U"
      then obtain r post where x: "x = P @ r @ [''images'']" "''images'' \<notin> set post"
          "isFileAt (Dir items) (r @ ''images'' # post)"
        by blast
      have "P @ (r @ ''images'' # post) = (P @ r) @ ''images'' # post" by simp
      moreover have "x = (P @ r) @ [''images'']" using x(1) by simp
      ultimately show "x \<in> set (patchImageDirs p)"
        unfolding s using x(2,3) by blast
    qed
  qed
  show ?thesis using d s u by blast
qed

text \<open>
  C5. The doc comment of the loader says that any directory named \<^verbatim>\<open>images\<close> under
  the patches is copied. Below, \<^verbatim>\<open>empty/images\<close> is an empty directory and
  \<^verbatim>\<open>images\<close> contains nothing but a directory \<^verbatim>\<open>images\<close> with one file: three
  directories are named \<^verbatim>\<open>images\<close>, and the loader collects the innermost only.
  The outer \<^verbatim>\<open>images\<close> is not collected, so it is not copied as the comment says,
  and neither is the empty one collected.
\<close>

theorem empty_and_outer_images_not_collected:
  "loadPatchEntriesAndImageDirs ['''', ''repo'', ''resources'', ''patches'']
     (Some (Dir [(''empty'', Dir [(''images'', Dir [])]),
                 (''images'', Dir [(''images'', Dir [(''a.png'', File None)])])]))
   = Inr \<lparr>patchAmiibo = [], patchSkylander = [],
          patchImageDirs = [['''', ''repo'', ''resources'', ''patches'', ''images'', ''images'']]\<rparr>
   \<and> spec_imageDirs ['''', ''repo'', ''resources'', ''patches'']
        [(''empty'', Dir [(''images'', Dir [])]),
         (''images'', Dir [(''images'', Dir [(''a.png'', File None)])])]
     = [['''', ''repo'', ''resources'', ''patches'', ''empty'', ''images''],
        ['''', ''repo'', ''resources'', ''patches'', ''images''],
        ['''', ''repo'', ''resources'', ''patches'', ''images'', ''images'']]"
  by (simp add: loadPatchEntriesAndImageDirs_def spec_imageDirs_def endsWith_def
        toLowerCase_def lowerChar_def)

lemma scenario_load:
  "loadPatchEntriesAndImageDirs scenarioPatchesDir (Some (Dir scenarioPatchItems))
   = Inr \<lparr>patchAmiibo =
            [JObj [(''head'', JStr ''05''), (''tail'', JStr ''B''), (''name'', JStr ''Y''),
                   (''image'', JStr ''images/sub/bar.png'')]],
          patchSkylander = [],
          patchImageDirs = [['''', ''repo'', ''resources'', ''patches'', ''community'', ''images'']]\<rparr>"
  by (simp add: scenarioPatchesDir_def scenarioPatchItems_def loadPatchEntriesAndImageDirs_def
        endsWith_def toLowerCase_def lowerChar_def looksSky_def isNumber_def)

theorem patchImageDirs_rule_witness:
  "set [['''', ''repo'', ''resources'', ''patches'', ''community'', ''images'']]
   = {scenarioPatchesDir @ r @ [''images''] | r post. ''images'' \<notin> set post
        \<and> isFileAt (Dir scenarioPatchItems) (r @ ''images'' # post)}"
proof -
  have nin: "''images'' \<notin> set scenarioPatchesDir"
    by (simp add: scenarioPatchesDir_def)
  note patchImageDirs_rule [OF scenario_load, THEN conjunct2, THEN conjunct2, THEN mp, OF nin]
  then show ?thesis
    by simp
qed

section \<open>Properties of the lite projections\<close>

lemma nullish_not_null: "d \<noteq> JNull \<Longrightarrow> nullish x d \<noteq> JNull"
  by (cases "(x, d)" rule: nullish.cases) auto

lemma normalizeImagePath_total: "e \<noteq> JNull \<Longrightarrow> \<exists>y. normalizeImagePath e = Inr y"
  by (simp add: normalizeImagePath_def Let_def)

lemma nullish_if:
  "Some (nullish (getProp e f) d) = (if absent e f then Some d else getProp e f)"
  by (auto simp: absent_def split: option.splits json.splits)

lemma not_absent_nullish:
  "d \<noteq> JNull \<Longrightarrow> getProp r f = Some (nullish x d) \<Longrightarrow> \<not> absent r f"
  using nullish_not_null[of d x] by (auto simp: absent_def split: json.splits)

lemma toLiteAmiibo_fields:
  assumes "e \<noteq> JNull" and "normalizeImagePath e = Inr y"
  shows "\<exists>a. toLiteAmiibo e = Inr a
     \<and> getProp a ''amiiboSeries'' = Some (nullish (getProp e ''amiiboSeries'') (JStr ''''))
     \<and> getProp a ''character'' = Some (nullish (getProp e ''character'') (JStr ''''))
     \<and> getProp a ''gameSeries'' = Some (nullish (getProp e ''gameSeries'') (JStr ''''))
     \<and> getProp a ''head'' = Some (nullish (getProp e ''head'') (JStr ''''))
     \<and> getProp a ''image'' = Some (JStr y)
     \<and> getProp a ''name'' = Some (nullish (getProp e ''name'') (JStr ''''))
     \<and> getProp a ''tail'' = Some (nullish (getProp e ''tail'') (JStr ''''))"
  using assms by (simp add: toLiteAmiibo_def)

lemma toLiteSkylander_fields:
  assumes "e \<noteq> JNull" and "normalizeImagePath e = Inr y"
  shows "\<exists>s. toLiteSkylander e = Inr s
     \<and> getProp s ''gameSeries'' =
         Some (nullish (getProp e ''gameSeries'')
                (nullish (getProp e ''gameSeriesName'')
                   (nullish (getProp e ''game'') (JStr ''''))))
     \<and> getProp s ''figureId'' = Some (nullish (getProp e ''figureId'') (JNum (Finite 0)))
     \<and> getProp s ''variant'' = Some (nullish (getProp e ''variant'') (JNum (Finite 0)))
     \<and> getProp s ''sig'' = Some (nullish (getProp e ''sig'') (JNum (Finite 0)))
     \<and> getProp s ''image'' = Some (JStr y)
     \<and> getProp s ''name'' = Some (nullish (getProp e ''name'') (JStr ''''))"
  using assms by (simp add: toLiteSkylander_def)

text \<open>
  C9, amended. For every record (anything but \<^verbatim>\<open>null\<close>; a merged record is
  normalized into an object before it is projected) both lite projections return a
  record in which every field of the lite schema is present and is not \<^verbatim>\<open>null\<close>.
  \<^verbatim>\<open>image\<close> is the normalized reference. Each other field is the source's when the
  source has it, and otherwise the empty string, or zero for \<^verbatim>\<open>figureId\<close>,
  \<^verbatim>\<open>variant\<close> and \<^verbatim>\<open>sig\<close>; but a skylander's \<^verbatim>\<open>gameSeries\<close>, when the source lacks
  it, is taken from \<^verbatim>\<open>gameSeriesName\<close>, then from \<^verbatim>\<open>game\<close>, before it defaults to the
  empty string.
\<close>

theorem lite_projection_rule:
  assumes "e \<noteq> JNull"
  shows "\<exists>a s y. toLiteAmiibo e = Inr a \<and> toLiteSkylander e = Inr s \<and> normalizeImagePath e = Inr y
     \<and> list_all (\<lambda>f. \<not> absent a f) liteAmiiboFields
     \<and> list_all (\<lambda>f. \<not> absent s f) liteSkylanderFields
     \<and> getProp a ''image'' = Some (JStr y) \<and> getProp s ''image'' = Some (JStr y)
     \<and> (\<forall>f\<in>set [''amiiboSeries'', ''character'', ''gameSeries'', ''head'', ''name'', ''tail''].
           getProp a f = (if absent e f then Some (JStr '''') else getProp e f))
     \<and> (\<forall>f\<in>set [''figureId'', ''variant'', ''sig''].
           getProp s f = (if absent e f then Some (JNum (Finite 0)) else getProp e f))
     \<and> getProp s ''name'' = (if absent e ''name'' then Some (JStr '''') else getProp e ''name'')
     \<and> getProp s ''gameSeries'' =
           (if \<not> absent e ''gameSeries'' then getProp e ''gameSeries''
            else if \<not> absent e ''gameSeriesName'' then getProp e ''gameSeriesName''
            else if \<not> absent e ''game'' then getProp e ''game''
            else Some (JStr ''''))"
proof -
  obtain y where y: "normalizeImagePath e = Inr y"
    using assms normalizeImagePath_total by blast
  obtain a where a: "toLiteAmiibo e = Inr a"
    and a1: "getProp a ''amiiboSeries'' = Some (nullish (getProp e ''amiiboSeries'') (JStr ''''))"
    and a2: "getProp a ''character'' = Some (nullish (getProp e ''character'') (JStr ''''))"
    and a3: "getProp a ''gameSeries'' = Some (nullish (getProp e ''gameSeries'') (JStr ''''))"
    and a4: "getProp a ''head'' = Some (nullish (getProp e ''head'') (JStr ''''))"
    and a5: "getProp a ''image'' = Some (JStr y)"
    and a6: "getProp a ''name'' = Some (nullish (getProp e ''name'') (JStr ''''))"
    and a7: "getProp a ''tail'' = Some (nullish (getProp e ''tail'') (JStr ''''))"
    using toLiteAmiibo_fields[OF assms y] by blast
  obtain s where s: "toLiteSkylander e = Inr s"
    and s1: "getProp s ''gameSeries'' =
         Some (nullish (getProp e ''gameSeries'')
                (nullish (getProp e ''gameSeriesName'')
                   (nullish (getProp e ''game'') (JStr ''''))))"
    and s2: "getProp s ''figureId'' = Some (nullish (getProp e ''figureId'') (JNum (Finite 0)))"
    and s3: "getProp s ''variant'' = Some (nullish (getProp e ''variant'') (JNum (Finite 0)))"
    and s4: "getProp s ''sig'' = Some (nullish (getProp e ''sig'') (JNum (Finite 0)))"
    and s5: "getProp s ''image'' = Some (JStr y)"
    and s6: "getProp s ''name'' = Some (nullish (getProp e ''name'') (JStr ''''))"
    using toLiteSkylander_fields[OF assms y] by blast
  have img: "\<not> absent r ''image''" if "getProp r ''image'' = Some (JStr y)" for r
    using that by (simp add: absent_def)
  have str: "JStr '''' \<noteq> JNull" and zero: "JNum (Finite 0) \<noteq> JNull"
    by simp_all
  have gs: "nullish (getProp e ''gameSeriesName'') (nullish (getProp e ''game'') (JStr '''')) \<noteq> JNull"
    by (intro nullish_not_null) simp
  have ca: "list_all (\<lambda>f. \<not> absent a f) liteAmiiboFields"
    using not_absent_nullish[OF str a1] not_absent_nullish[OF str a2] not_absent_nullish[OF str a3]
      not_absent_nullish[OF str a4] img[OF a5] not_absent_nullish[OF str a6]
      not_absent_nullish[OF str a7]
    by (simp add: liteAmiiboFields_def)
  have cs: "list_all (\<lambda>f. \<not> absent s f) liteSkylanderFields"
    using not_absent_nullish[OF gs s1] not_absent_nullish[OF zero s2]
      not_absent_nullish[OF zero s3] not_absent_nullish[OF zero s4] img[OF s5]
      not_absent_nullish[OF str s6]
    by (simp add: liteSkylanderFields_def)
  have fa: "\<forall>f\<in>set [''amiiboSeries'', ''character'', ''gameSeries'', ''head'', ''name'', ''tail''].
           getProp a f = (if absent e f then Some (JStr '''') else getProp e f)"
    using a1 a2 a3 a4 a6 a7 unfolding nullish_if by simp
  have fs: "\<forall>f\<in>set [''figureId'', ''variant'', ''sig''].
           getProp s f = (if absent e f then Some (JNum (Finite 0)) else getProp e f)"
    using s2 s3 s4 unfolding nullish_if by simp
  have fn: "getProp s ''name'' = (if absent e ''name'' then Some (JStr '''') else getProp e ''name'')"
    using s6 unfolding nullish_if .
  have fg: "getProp s ''gameSeries'' =
           (if \<not> absent e ''gameSeries'' then getProp e ''gameSeries''
            else if \<not> absent e ''gameSeriesName'' then getProp e ''gameSeriesName''
            else if \<not> absent e ''game'' then getProp e ''game''
            else Some (JStr ''''))"
    unfolding s1
    by (auto simp: absent_def split: option.splits json.splits)
  show ?thesis
    using a s y ca cs a5 s5 fa fs fn fg by blast
qed


text \<open>
  C9, as the claim states it, fails for the skylander \<^verbatim>\<open>gameSeries\<close>: the source below
  has no \<^verbatim>\<open>gameSeries\<close>, and the lite field is not the empty string but the source's
  \<^verbatim>\<open>gameSeriesName\<close>.
\<close>

theorem toLiteSkylander_alias:
  "toLiteSkylander (JObj [(''name'', JStr ''Tree Rex''), (''gameSeriesName'', JStr ''Giants'')])
   = Inr (JObj [(''gameSeries'', JStr ''Giants''), (''figureId'', JNum (Finite 0)),
                (''variant'', JNum (Finite 0)), (''sig'', JNum (Finite 0)), (''image'', JStr ''''),
                (''name'', JStr ''Tree Rex''), (''type'', JStr ''skylander'')])"
  by (simp add: toLiteSkylander_def normalizeImagePath_def)

theorem lite_projection_rule_witness:
  "toLiteAmiibo (JObj [(''head'', JStr ''04''), (''name'', JNull)])
   = Inr (JObj [(''amiiboSeries'', JStr ''''), (''character'', JStr ''''),
                (''gameSeries'', JStr ''''), (''head'', JStr ''04''), (''image'', JStr ''''),
                (''name'', JStr ''''), (''tail'', JStr ''''), (''type'', JStr ''amiibo'')])
   \<and> list_all (\<lambda>f. \<not> absent (JObj [(''amiiboSeries'', JStr ''''), (''character'', JStr ''''),
                (''gameSeries'', JStr ''''), (''head'', JStr ''04''), (''image'', JStr ''''),
                (''name'', JStr ''''), (''tail'', JStr ''''), (''type'', JStr ''amiibo'')]) f)
        liteAmiiboFields"
  using lite_projection_rule [of "JObj [(''head'', JStr ''04''), (''name'', JNull)]"]
  by (auto simp: toLiteAmiibo_def normalizeImagePath_def)

section \<open>Properties of the canonical serializer\<close>

lemma forKeys_map_of:
  "map_of fs = map_of gs \<Longrightarrow> forKeys f fs seen out ks = forKeys f gs seen out ks"
  by (induction ks arbitrary: seen out) (simp_all split: option.splits sum.splits prod.splits)

lemma sort_keys_unique:
  assumes "distinct xs" "distinct ys" "set xs = set ys"
  shows "sort xs = sort (ys :: string list)"
  by (rule sorted_distinct_set_unique) (use assms in simp_all)

lemma sorter_reordered:
  "reorderedHeap H1 H2 \<Longrightarrow> sorter n H1 seen v = sorter n H2 seen v"
proof (induction n arbitrary: seen v)
  case 0
  then show ?case by simp
next
  case (Suc n)
  have f: "sorter n H1 = sorter n H2"
    using Suc.IH[OF Suc.prems] by (intro ext)
  have len: "length H1 = length H2"
    using Suc.prems by (simp add: reorderedHeap_def list_all2_lengthD)
  show ?case
  proof (cases v)
    case (VRef a)
    show ?thesis
    proof (cases "a \<in> seen \<or> length H1 \<le> a")
      case True
      then show ?thesis using VRef len by auto
    next
      case False
      then have a: "a \<notin> seen" "a < length H1" "a < length H2" using len by auto
      have rel: "reorderedNode (H1 ! a) (H2 ! a)"
        using Suc.prems a(2) by (simp add: reorderedHeap_def list_all2_nthD)
      show ?thesis
      proof (cases "H1 ! a")
        case (NArr vs)
        then have "H2 ! a = NArr vs"
          using rel by (auto simp: reorderedNode_def split: node.splits)
        then show ?thesis using VRef a NArr f by simp
      next
        case (NObj fs)
        then obtain gs where gs: "H2 ! a = NObj gs" "distinct (map fst fs)" "distinct (map fst gs)"
            "set fs = set gs"
          using rel by (auto simp: reorderedNode_def split: node.splits)
        have m: "map_of fs = map_of gs"
          using gs(2,3,4) by (simp add: map_of_inject_set)
        have "set (map fst fs) = set (map fst gs)"
          using gs(4) by simp
        then have k: "sort (map fst fs) = sort (map fst gs)"
          using gs(2,3) by (intro sort_keys_unique)
        show ?thesis
          using VRef a NObj gs(1) f k forKeys_map_of[OF m] by simp
      qed
    qed
  qed simp_all
qed

lemma mapSeen_visit:
  assumes "\<forall>i\<in>set is. \<forall>seen. seen \<inter> \<rho> i = {} \<longrightarrow> f seen (vs ! i) = Some (Inr (js i, seen \<union> \<rho> i))"
    and "distinct is"
    and "\<forall>i\<in>set is. \<forall>j\<in>set is. i \<noteq> j \<longrightarrow> \<rho> i \<inter> \<rho> j = {}"
    and "seen \<inter> (\<Union>i\<in>set is. \<rho> i) = {}"
  shows "mapSeen f seen (map (\<lambda>i. vs ! i) is) = Some (Inr (map js is, seen \<union> (\<Union>i\<in>set is. \<rho> i)))"
  using assms
proof (induction "is" arbitrary: seen)
  case Nil
  then show ?case by simp
next
  case (Cons i "is")
  have step: "f seen (vs ! i) = Some (Inr (js i, seen \<union> \<rho> i))"
    using Cons.prems(1,4) by auto
  have disj: "(seen \<union> \<rho> i) \<inter> (\<Union>j\<in>set is. \<rho> j) = {}"
    using Cons.prems(2,3,4) by auto
  have "mapSeen f (seen \<union> \<rho> i) (map (\<lambda>i. vs ! i) is)
      = Some (Inr (map js is, (seen \<union> \<rho> i) \<union> (\<Union>j\<in>set is. \<rho> j)))"
    using Cons.prems by (intro Cons.IH disj) auto
  then show ?case
    using step by (simp add: Un_assoc)
qed

lemma forKeys_visit:
  assumes "\<forall>k\<in>set ks. \<exists>v. map_of fs k = Some v
             \<and> (\<forall>seen. seen \<inter> \<rho> k = {} \<longrightarrow> f seen v = Some (Inr (js k, seen \<union> \<rho> k)))"
    and "distinct ks"
    and "\<forall>i\<in>set ks. \<forall>j\<in>set ks. i \<noteq> j \<longrightarrow> \<rho> i \<inter> \<rho> j = {}"
    and "seen \<inter> (\<Union>k\<in>set ks. \<rho> k) = {}"
  shows "forKeys f fs seen out ks
       = Some (Inr (foldl (\<lambda>out k. assignProp out k (js k)) out ks, seen \<union> (\<Union>k\<in>set ks. \<rho> k)))"
  using assms
proof (induction ks arbitrary: seen out)
  case Nil
  then show ?case by simp
next
  case (Cons k ks)
  obtain v where v: "map_of fs k = Some v"
    and step: "f seen v = Some (Inr (js k, seen \<union> \<rho> k))"
    using Cons.prems(1,4) by auto
  have disj: "(seen \<union> \<rho> k) \<inter> (\<Union>j\<in>set ks. \<rho> j) = {}"
    using Cons.prems(2,3,4) by auto
  have "forKeys f fs (seen \<union> \<rho> k) (assignProp out k (js k)) ks
      = Some (Inr (foldl (\<lambda>out k. assignProp out k (js k)) (assignProp out k (js k)) ks,
                   (seen \<union> \<rho> k) \<union> (\<Union>j\<in>set ks. \<rho> j)))"
    using Cons.prems by (intro Cons.IH disj) auto
  then show ?case
    using v step by (simp add: Un_assoc)
qed

lemma le_foldr_max: "x \<in> set xs \<Longrightarrow> x \<le> foldr max xs (0::nat)"
  by (induction xs) (auto simp: max_def)

lemma sortKeys_canon:
  assumes "distinct (map fst kvs)"
  shows "sortKeys (map (\<lambda>kv. (fst kv, canon (snd kv))) kvs)
       = foldl (\<lambda>out k. assignProp out k (canon (the (map_of kvs k)))) [] (sort (map fst kvs))"
proof -
  have keys: "map fst (map (\<lambda>kv. (fst kv, canon (snd kv))) kvs) = map fst kvs"
    by simp
  have look: "map_of (map (\<lambda>kv. (fst kv, canon (snd kv))) kvs) k = map_option canon (map_of kvs k)" for k
    by (induction kvs) auto
  have "(case map_of (map (\<lambda>kv. (fst kv, canon (snd kv))) kvs) k of
           Some t \<Rightarrow> assignProp out k t | None \<Rightarrow> out)
        = assignProp out k (canon (the (map_of kvs k)))"
    if "k \<in> set (sort (map fst kvs))" for out k
  proof -
    from that have "k \<in> fst ` set kvs" by simp
    then obtain t where "map_of kvs k = Some t"
      by (metis domD dom_map_of_conv_image_fst)
    then show ?thesis by (simp add: look)
  qed
  then show ?thesis
    unfolding sortKeys_def keys by (intro foldl_cong) auto
qed

lemma sorter_tree:
  "treeAt H v t R \<Longrightarrow> height t < n \<Longrightarrow> seen \<inter> R = {} \<Longrightarrow>
   sorter n H seen v = Some (Inr (canon t, seen \<union> R))"
proof (induction arbitrary: n seen rule: treeAt.induct)
  case tNull
  then show ?case by (cases n) simp_all
next
  case (tBool b)
  then show ?case by (cases n) simp_all
next
  case (tNum x)
  then show ?case by (cases n) simp_all
next
  case (tStr s)
  then show ?case by (cases n) simp_all
next
  case (tArr a vs ts \<rho>)
  from tArr.prems(1) obtain m where n: "n = Suc m" and m: "foldr max (map height ts) 0 < m"
    by (cases n) auto
  have a: "a \<notin> seen" using tArr.prems(2) by auto
  have hm: "height (ts ! i) < m" if "i < length ts" for i
    using le_foldr_max[of "height (ts ! i)" "map height ts"] that m by auto
  have step: "\<forall>i\<in>set [0..<length ts]. \<forall>seen. seen \<inter> \<rho> i = {}
        \<longrightarrow> sorter m H seen (vs ! i) = Some (Inr (canon (ts ! i), seen \<union> \<rho> i))"
    using tArr.IH hm by auto
  have disj: "\<forall>i\<in>set [0..<length ts]. \<forall>j\<in>set [0..<length ts]. i \<noteq> j \<longrightarrow> \<rho> i \<inter> \<rho> j = {}"
    using tArr.hyps(4) by auto
  have un: "(\<Union>i\<in>set [0..<length ts]. \<rho> i) = (\<Union>i<length ts. \<rho> i)"
    by auto
  have fresh: "insert a seen \<inter> (\<Union>i\<in>set [0..<length ts]. \<rho> i) = {}"
    unfolding un using tArr.prems(2) tArr.hyps(5) by auto
  have vs: "map (\<lambda>i. vs ! i) [0..<length ts] = vs"
    using tArr.hyps(3) by (metis map_nth)
  have res: "map (\<lambda>i. canon (ts ! i)) [0..<length ts] = map canon ts"
    by (intro nth_equalityI) auto
  from mapSeen_visit[of "[0..<length ts]" \<rho> "sorter m H" vs "\<lambda>i. canon (ts ! i)" "insert a seen",
      OF step _ disj fresh]
  have "mapSeen (sorter m H) (insert a seen) vs
      = Some (Inr (map canon ts, insert a seen \<union> (\<Union>i<length ts. \<rho> i)))"
    unfolding vs res un by simp
  then show ?case
    using n a tArr.hyps(1,2) by simp
next
  case (tObj a fs kvs \<rho>)
  from tObj.prems(1) obtain m where n: "n = Suc m"
    and m: "foldr max (map (\<lambda>kv. height (snd kv)) kvs) 0 < m"
    by (cases n) auto
  have a: "a \<notin> seen" using tObj.prems(2) by auto
  let ?ks = "sort (map fst fs)"
  have "set (map fst fs) = fst ` set kvs"
    unfolding tObj.hyps(3) by simp
  then have ks: "set ?ks = fst ` set kvs" "distinct ?ks"
    using tObj.hyps(3,4) by simp_all
  have dfs: "distinct (map fst fs)" using tObj.hyps(3,4) by simp
  have step: "\<forall>k\<in>set ?ks. \<exists>v. map_of fs k = Some v
      \<and> (\<forall>seen. seen \<inter> \<rho> k = {}
           \<longrightarrow> sorter m H seen v = Some (Inr (canon (the (map_of kvs k)), seen \<union> \<rho> k)))"
  proof
    fix k assume "k \<in> set ?ks"
    then have kin: "k \<in> fst ` set kvs" using ks(1) by simp
    then obtain t where t: "map_of kvs k = Some t"
      by (metis domD dom_map_of_conv_image_fst)
    from kin have "k \<in> fst ` set fs"
      using tObj.hyps(3) by (metis image_set)
    then obtain v where v: "map_of fs k = Some v"
      by (metis domD dom_map_of_conv_image_fst)
    have "(k, t) \<in> set kvs" using t by (rule map_of_SomeD)
    then have "height t \<le> foldr max (map (\<lambda>kv. height (snd kv)) kvs) 0"
      by (intro le_foldr_max) force
    then have "height t < m" using m by simp
    then have "\<forall>seen. seen \<inter> \<rho> k = {}
        \<longrightarrow> sorter m H seen v = Some (Inr (canon t, seen \<union> \<rho> k))"
      using tObj.IH v t by blast
    then show "\<exists>v. map_of fs k = Some v
      \<and> (\<forall>seen. seen \<inter> \<rho> k = {}
           \<longrightarrow> sorter m H seen v = Some (Inr (canon (the (map_of kvs k)), seen \<union> \<rho> k)))"
      using v t by simp
  qed
  have disj: "\<forall>i\<in>set ?ks. \<forall>j\<in>set ?ks. i \<noteq> j \<longrightarrow> \<rho> i \<inter> \<rho> j = {}"
    using tObj.hyps(5) ks(1) by auto
  have fresh: "insert a seen \<inter> (\<Union>k\<in>set ?ks. \<rho> k) = {}"
    unfolding ks(1) using tObj.prems(2) tObj.hyps(6) by auto
  from forKeys_visit[of ?ks fs \<rho> "sorter m H" "\<lambda>k. canon (the (map_of kvs k))" "insert a seen" "[]",
      OF step ks(2) disj fresh]
  have "forKeys (sorter m H) fs (insert a seen) [] ?ks
      = Some (Inr (sortKeys (map (\<lambda>kv. (fst kv, canon (snd kv))) kvs),
                   insert a seen \<union> (\<Union>k\<in>fst ` set kvs. \<rho> k)))"
    unfolding sortKeys_canon[OF tObj.hyps(4)] ks(1) tObj.hyps(3) by simp
  then show ?case
    using n a tObj.hyps(1,2) by simp
qed

lemma canon_reordered: "keyReordered t t' \<Longrightarrow> canon t = canon t'"
proof (induction rule: keyReordered.induct)
  case (kArr xs ys)
  then have "map canon xs = map canon ys"
    by (intro nth_equalityI) auto
  then show ?case by simp
next
  case (kObj kvs kvs')
  have keys: "sort (map fst kvs) = sort (map fst kvs')"
    using kObj.hyps(1,2,3) by (intro sort_keys_unique) simp_all
  have "assignProp out k (canon (the (map_of kvs k))) = assignProp out k (canon (the (map_of kvs' k)))"
    if "k \<in> set (sort (map fst kvs))" for out k
  proof -
    from that have k: "k \<in> fst ` set kvs" "k \<in> fst ` set kvs'"
      using kObj.hyps(3) by simp_all
    then obtain t t' where "map_of kvs k = Some t" "map_of kvs' k = Some t'"
      by (metis domD dom_map_of_conv_image_fst)
    then show ?thesis using kObj.IH by simp
  qed
  then have "foldl (\<lambda>out k. assignProp out k (canon (the (map_of kvs k)))) [] (sort (map fst kvs))
           = foldl (\<lambda>out k. assignProp out k (canon (the (map_of kvs' k)))) [] (sort (map fst kvs'))"
    unfolding keys[symmetric] by (intro foldl_cong) auto
  then show ?case
    using kObj.hyps(1,2) by (simp add: sortKeys_canon)
qed simp_all

text \<open>
  On trees the canonical serializer does not depend on the order in which keys were
  inserted. Two values laid out as trees (what \<^verbatim>\<open>JSON.parse\<close> and the literals of the
  pipeline build), anywhere in any heaps, structurally equal up to the order of their
  keys, are both serialized, given fuel above their height, and to the same text: that
  of the sorted copy of either. And two heaps that hold the same graph, address by
  address, with the keys of their objects inserted in different orders, give the same
  outcome on every value and with any fuel, whatever they share. An array is written as
  its elements in order.
\<close>

theorem stableJsonStringify_order_independent:
  "(treeAt H1 v1 t1 R1 \<and> treeAt H2 v2 t2 R2 \<and> keyReordered t1 t2
      \<and> height t1 < n \<and> height t2 < n \<longrightarrow>
        stableJsonStringify n ns H1 v1 = Some (Inr (stringify ns (canon t1)))
      \<and> stableJsonStringify n ns H2 v2 = Some (Inr (stringify ns (canon t1))))
   \<and> (reorderedHeap G1 G2 \<longrightarrow> stableJsonStringify m ns G1 v = stableJsonStringify m ns G2 v)
   \<and> stringify ns (canon (JArr ts))
       = ''['' @ joinWith '','' (map (\<lambda>t. stringify ns (canon t)) ts) @ '']''"
proof (intro conjI impI)
  assume a: "treeAt H1 v1 t1 R1 \<and> treeAt H2 v2 t2 R2 \<and> keyReordered t1 t2
      \<and> height t1 < n \<and> height t2 < n"
  then have c: "canon t2 = canon t1"
    using canon_reordered[of t1 t2] by simp
  have "sorter n H1 {} v1 = Some (Inr (canon t1, {} \<union> R1))"
    using a by (intro sorter_tree) auto
  then show "stableJsonStringify n ns H1 v1 = Some (Inr (stringify ns (canon t1)))"
    by (simp add: stableJsonStringify_def)
  have "sorter n H2 {} v2 = Some (Inr (canon t2, {} \<union> R2))"
    using a by (intro sorter_tree) auto
  then show "stableJsonStringify n ns H2 v2 = Some (Inr (stringify ns (canon t1)))"
    by (simp add: stableJsonStringify_def c)
next
  assume "reorderedHeap G1 G2"
  then show "stableJsonStringify m ns G1 v = stableJsonStringify m ns G2 v"
    by (simp add: stableJsonStringify_def sorter_reordered)
next
  show "stringify ns (canon (JArr ts))
       = ''['' @ joinWith '','' (map (\<lambda>t. stringify ns (canon t)) ts) @ '']''"
    by (simp add: comp_def)
qed

lemma demo_tree1:
  "treeAt demoHeap1 (VRef (Suc 0))
     (JArr [JObj [(''name'', JStr ''X''), (''head'', JStr ''04'')], JNum (Finite 7)])
     {Suc 0, 0}"
proof -
  have obj: "treeAt demoHeap1 (VRef 0) (JObj [(''name'', JStr ''X''), (''head'', JStr ''04'')])
      (insert 0 (\<Union>k\<in>fst ` set [(''name'', JStr ''X''), (''head'', JStr ''04'')]. {}))"
    by (rule treeAt.tObj[where fs = "[(''name'', VStr ''X''), (''head'', VStr ''04'')]"])
       (auto simp: demoHeap1_def intro: treeAt.intros split: if_splits)
  define \<rho> :: "nat \<Rightarrow> addr set" where "\<rho> = (\<lambda>i. if i = 0 then {0} else {})"
  have "treeAt demoHeap1 (VRef (Suc 0))
     (JArr [JObj [(''name'', JStr ''X''), (''head'', JStr ''04'')], JNum (Finite 7)])
     (insert (Suc 0) (\<Union>i<length [JObj [(''name'', JStr ''X''), (''head'', JStr ''04'')], JNum (Finite 7)]. \<rho> i))"
  proof (rule treeAt.tArr[where vs = "[VRef 0, VNum (Finite 7)]"])
    show "\<forall>i. i < length [JObj [(''name'', JStr ''X''), (''head'', JStr ''04'')], JNum (Finite 7)] \<longrightarrow>
        treeAt demoHeap1 ([VRef 0, VNum (Finite 7)] ! i)
          ([JObj [(''name'', JStr ''X''), (''head'', JStr ''04'')], JNum (Finite 7)] ! i) (\<rho> i)"
      using obj by (auto simp: \<rho>_def less_Suc_eq intro: treeAt.intros)
  qed (auto simp: demoHeap1_def \<rho>_def)
  moreover have "(\<Union>i<length [JObj [(''name'', JStr ''X''), (''head'', JStr ''04'')], JNum (Finite 7)]. \<rho> i) = {0}"
    by (auto simp: \<rho>_def)
  ultimately show ?thesis by simp
qed

lemma demo_tree2:
  "treeAt demoHeap2 (VRef 0)
     (JArr [JObj [(''head'', JStr ''04''), (''name'', JStr ''X'')], JNum (Finite 7)])
     {0, Suc 0}"
proof -
  have obj: "treeAt demoHeap2 (VRef (Suc 0)) (JObj [(''head'', JStr ''04''), (''name'', JStr ''X'')])
      (insert (Suc 0) (\<Union>k\<in>fst ` set [(''head'', JStr ''04''), (''name'', JStr ''X'')]. {}))"
    by (rule treeAt.tObj[where fs = "[(''head'', VStr ''04''), (''name'', VStr ''X'')]"])
       (auto simp: demoHeap2_def intro: treeAt.intros split: if_splits)
  define \<rho> :: "nat \<Rightarrow> addr set" where "\<rho> = (\<lambda>i. if i = 0 then {Suc 0} else {})"
  have "treeAt demoHeap2 (VRef 0)
     (JArr [JObj [(''head'', JStr ''04''), (''name'', JStr ''X'')], JNum (Finite 7)])
     (insert 0 (\<Union>i<length [JObj [(''head'', JStr ''04''), (''name'', JStr ''X'')], JNum (Finite 7)]. \<rho> i))"
  proof (rule treeAt.tArr[where vs = "[VRef (Suc 0), VNum (Finite 7)]"])
    show "\<forall>i. i < length [JObj [(''head'', JStr ''04''), (''name'', JStr ''X'')], JNum (Finite 7)] \<longrightarrow>
        treeAt demoHeap2 ([VRef (Suc 0), VNum (Finite 7)] ! i)
          ([JObj [(''head'', JStr ''04''), (''name'', JStr ''X'')], JNum (Finite 7)] ! i) (\<rho> i)"
      using obj by (auto simp: \<rho>_def less_Suc_eq intro: treeAt.intros)
  qed (auto simp: demoHeap2_def \<rho>_def)
  moreover have "(\<Union>i<length [JObj [(''head'', JStr ''04''), (''name'', JStr ''X'')], JNum (Finite 7)]. \<rho> i) = {Suc 0}"
    by (auto simp: \<rho>_def)
  ultimately show ?thesis by simp
qed

lemma demo_reordered:
  "keyReordered
     (JArr [JObj [(''name'', JStr ''X''), (''head'', JStr ''04'')], JNum (Finite 7)])
     (JArr [JObj [(''head'', JStr ''04''), (''name'', JStr ''X'')], JNum (Finite 7)])"
proof (rule keyReordered.kArr)
  have "keyReordered (JObj [(''name'', JStr ''X''), (''head'', JStr ''04'')])
                     (JObj [(''head'', JStr ''04''), (''name'', JStr ''X'')])"
    by (rule keyReordered.kObj) (auto intro: keyReordered.intros split: if_splits)
  then show "\<forall>i. i < length [JObj [(''name'', JStr ''X''), (''head'', JStr ''04'')], JNum (Finite 7)] \<longrightarrow>
      keyReordered ([JObj [(''name'', JStr ''X''), (''head'', JStr ''04'')], JNum (Finite 7)] ! i)
                   ([JObj [(''head'', JStr ''04''), (''name'', JStr ''X'')], JNum (Finite 7)] ! i)"
    by (auto simp: less_Suc_eq intro: keyReordered.intros)
qed simp

lemma demo_heaps_reordered: "reorderedHeap demoHeap1 demoHeap3"
  by (auto simp: reorderedHeap_def reorderedNode_def demoHeap1_def demoHeap3_def)

theorem stableJsonStringify_order_independent_witness:
  "stableJsonStringify (Suc (Suc (Suc 0))) showNat demoHeap1 (VRef (Suc 0))
     = Some (Inr (''[{'' @ [CHR 0x22] @ ''head'' @ [CHR 0x22] @ '':'' @ [CHR 0x22] @ ''04'' @ [CHR 0x22]
                   @ '','' @ [CHR 0x22] @ ''name'' @ [CHR 0x22] @ '':'' @ [CHR 0x22] @ ''X'' @ [CHR 0x22]
                   @ ''},7]''))
   \<and> stableJsonStringify (Suc (Suc (Suc 0))) showNat demoHeap2 (VRef 0)
     = Some (Inr (''[{'' @ [CHR 0x22] @ ''head'' @ [CHR 0x22] @ '':'' @ [CHR 0x22] @ ''04'' @ [CHR 0x22]
                   @ '','' @ [CHR 0x22] @ ''name'' @ [CHR 0x22] @ '':'' @ [CHR 0x22] @ ''X'' @ [CHR 0x22]
                   @ ''},7]''))
   \<and> stableJsonStringify (Suc (Suc (Suc 0))) showNat demoHeap1 (VRef (Suc 0))
     = stableJsonStringify (Suc (Suc (Suc 0))) showNat demoHeap3 (VRef (Suc 0))"
proof -
  let ?t1 = "JArr [JObj [(''name'', JStr ''X''), (''head'', JStr ''04'')], JNum (Finite 7)]"
  let ?t2 = "JArr [JObj [(''head'', JStr ''04''), (''name'', JStr ''X'')], JNum (Finite 7)]"
  have h: "height ?t1 < Suc (Suc (Suc 0))" "height ?t2 < Suc (Suc (Suc 0))"
    by simp_all
  have bytes: "stringify showNat (canon ?t1)
     = ''[{'' @ [CHR 0x22] @ ''head'' @ [CHR 0x22] @ '':'' @ [CHR 0x22] @ ''04'' @ [CHR 0x22]
        @ '','' @ [CHR 0x22] @ ''name'' @ [CHR 0x22] @ '':'' @ [CHR 0x22] @ ''X'' @ [CHR 0x22]
        @ ''},7]''"
    by (simp add: sortKeys_def assignProp_def ownPropertyOrder_def arrayIndex_def isDigit_def
          digitsValue_def quoteJSON_def escapeChar_def showNat_def)
  from stableJsonStringify_order_independent
    [of demoHeap1 "VRef (Suc 0)" ?t1 "{Suc 0, 0}" demoHeap2 "VRef 0" ?t2 "{0, Suc 0}"
        "Suc (Suc (Suc 0))" showNat demoHeap1 demoHeap3 "Suc (Suc (Suc 0))" "VRef (Suc 0)"]
    demo_tree1 demo_tree2 demo_reordered h demo_heaps_reordered
  show ?thesis
    unfolding bytes by blast
qed

lemma shared_reordered:
  "keyReordered
     (JArr [JObj [(''name'', JStr ''X''), (''head'', JStr ''04'')],
            JObj [(''name'', JStr ''X''), (''head'', JStr ''04'')]])
     (JArr [JObj [(''name'', JStr ''X''), (''head'', JStr ''04'')],
            JObj [(''head'', JStr ''04''), (''name'', JStr ''X'')]])"
proof (rule keyReordered.kArr)
  have same: "keyReordered (JObj [(''name'', JStr ''X''), (''head'', JStr ''04'')])
                     (JObj [(''name'', JStr ''X''), (''head'', JStr ''04'')])"
    by (rule keyReordered.kObj) (auto intro: keyReordered.intros split: if_splits)
  have swap: "keyReordered (JObj [(''name'', JStr ''X''), (''head'', JStr ''04'')])
                     (JObj [(''head'', JStr ''04''), (''name'', JStr ''X'')])"
    by (rule keyReordered.kObj) (auto intro: keyReordered.intros split: if_splits)
  show "\<forall>i. i < length [JObj [(''name'', JStr ''X''), (''head'', JStr ''04'')],
                          JObj [(''name'', JStr ''X''), (''head'', JStr ''04'')]] \<longrightarrow>
      keyReordered ([JObj [(''name'', JStr ''X''), (''head'', JStr ''04'')],
                     JObj [(''name'', JStr ''X''), (''head'', JStr ''04'')]] ! i)
                   ([JObj [(''name'', JStr ''X''), (''head'', JStr ''04'')],
                     JObj [(''head'', JStr ''04''), (''name'', JStr ''X'')]] ! i)"
    using same swap by (auto simp: less_Suc_eq)
qed simp

lemma shared_acyclic: "acyclic (references sharedHeap)"
proof -
  have "(references sharedHeap)\<inverse> \<subseteq> less_than"
    by (auto simp: references_def sharedHeap_def less_Suc_eq)
  then have "acyclic ((references sharedHeap)\<inverse>)"
    by (meson acyclic_subset wf_acyclic wf_less_than)
  then show ?thesis
    by (simp only: acyclic_converse)
qed

text \<open>
  C8. The two arrays \<^verbatim>\<open>[a, a]\<close> and \<^verbatim>\<open>[a, b]\<close> of \<^const>\<open>sharedHeap\<close> are
  acyclic and have the same content up to the order in which the keys of \<^verbatim>\<open>b\<close> were
  inserted. With any fuel that reaches their leaves the serializer writes the second
  and fails on the first with \<^verbatim>\<open>CircularStructure\<close>, so the two do not get the same
  bytes: the object \<^verbatim>\<open>a\<close> is still in \<^verbatim>\<open>seen\<close> when the second element is visited.
\<close>

theorem shared_node_not_serialized:
  "stableJsonStringify (Suc (Suc (Suc n))) ns sharedHeap (VRef 2) = Some (Inl CircularStructure)
   \<and> stableJsonStringify (Suc (Suc (Suc n))) ns sharedHeap (VRef 3) = Some (Inr sharedArtifact)
   \<and> contentOf (Suc (Suc (Suc n))) sharedHeap (VRef 2)
       = Some (JArr [JObj [(''name'', JStr ''X''), (''head'', JStr ''04'')],
                     JObj [(''name'', JStr ''X''), (''head'', JStr ''04'')]])
   \<and> contentOf (Suc (Suc (Suc n))) sharedHeap (VRef 3)
       = Some (JArr [JObj [(''name'', JStr ''X''), (''head'', JStr ''04'')],
                     JObj [(''head'', JStr ''04''), (''name'', JStr ''X'')]])
   \<and> keyReordered
        (JArr [JObj [(''name'', JStr ''X''), (''head'', JStr ''04'')],
               JObj [(''name'', JStr ''X''), (''head'', JStr ''04'')]])
        (JArr [JObj [(''name'', JStr ''X''), (''head'', JStr ''04'')],
               JObj [(''head'', JStr ''04''), (''name'', JStr ''X'')]])
   \<and> acyclic (references sharedHeap)"
proof -
  have rejected: "stableJsonStringify (Suc (Suc (Suc n))) ns sharedHeap (VRef 2)
      = Some (Inl CircularStructure)"
    by (simp add: stableJsonStringify_def sharedHeap_def assignProp_def)
  have written: "stableJsonStringify (Suc (Suc (Suc n))) ns sharedHeap (VRef 3)
      = Some (Inr sharedArtifact)"
    by (simp add: stableJsonStringify_def sharedHeap_def sharedArtifact_def
        assignProp_def ownPropertyOrder_def arrayIndex_def isDigit_def
        digitsValue_def quoteJSON_def escapeChar_def)
  have c1: "contentOf (Suc (Suc (Suc n))) sharedHeap (VRef 2)
       = Some (JArr [JObj [(''name'', JStr ''X''), (''head'', JStr ''04'')],
                     JObj [(''name'', JStr ''X''), (''head'', JStr ''04'')]])"
    by (simp add: sharedHeap_def)
  have c2: "contentOf (Suc (Suc (Suc n))) sharedHeap (VRef 3)
       = Some (JArr [JObj [(''name'', JStr ''X''), (''head'', JStr ''04'')],
                     JObj [(''head'', JStr ''04''), (''name'', JStr ''X'')]])"
    by (simp add: sharedHeap_def)
  show ?thesis
    using rejected written c1 c2 shared_reordered shared_acyclic by simp
qed

text \<open>
  C2. The heap below is \<^verbatim>\<open>const a = {}; [a, a]\<close>: one object shared by two sibling
  positions of an array, and no cycle. The serializer fails on it with
  \<^verbatim>\<open>CircularStructure\<close>, with any fuel that lets the run reach the elements: the
  first element puts the object into \<^verbatim>\<open>seen\<close>, nothing takes it out when its
  traversal ends, and the second element finds it there.
\<close>

theorem shared_sibling_rejected:
  "stableJsonStringify (Suc (Suc n)) ns [NObj [], NArr [VRef 0, VRef 0]] (VRef (Suc 0))
     = Some (Inl CircularStructure)
   \<and> acyclic (references [NObj [], NArr [VRef 0, VRef 0]])"
proof -
  have "references [NObj [], NArr [VRef 0, VRef 0]] = {(Suc 0, 0)}"
    by (auto simp: references_def less_Suc_eq)
  moreover have "acyclic ({} :: (addr \<times> addr) set)"
    by (simp add: acyclic_def)
  ultimately show ?thesis
    by (simp add: stableJsonStringify_def acyclic_insert)
qed

section \<open>Properties of the full artifact\<close>

























section \<open>Properties of the entry validator\<close>

lemma toStr_error:
  "toStr ns v = Inl err \<Longrightarrow> err = TypeError"
  "joinElems ns vs = Inl err \<Longrightarrow> err = TypeError"
  by (induction ns v and ns vs arbitrary: err and err rule: toStr_joinElems.induct)
     (auto split: if_splits sum.splits json.splits)

lemma validateAmiibo_Cons:
  "validateAmiibo ns seen (e # es) =
     (case amiiboKey ns e of
        Inl err \<Rightarrow> Inl err
      | Inr key \<Rightarrow>
          if checkedId e \<and> key \<in> seen then Inl (DuplicateRecord Amiibo key)
          else validateAmiibo ns (insert key seen) es)"
  by (simp add: amiiboKey_def idHead_def idTail_def checkedId_def Let_def split: sum.splits)

lemma ex_less_Cons: "(\<exists>j<Suc n. P j) \<longleftrightarrow> P 0 \<or> (\<exists>j<n. P (Suc j))"
  by (auto simp: less_Suc_eq_0_disj)

lemma amiiboKey_no_duplicate_error: "amiiboKey ns e \<noteq> Inl (DuplicateRecord n k)"
  by (auto simp: amiiboKey_def split: sum.splits dest: toStr_error)

lemma validateAmiibo_duplicate_take:
  "(\<exists>k. validateAmiibo ns seen es = Inl (DuplicateRecord Amiibo k)) \<longleftrightarrow>
   (\<exists>j<length es. \<exists>k.
       (\<forall>x\<in>set (take j es). \<exists>k'. amiiboKey ns x = Inr k')
     \<and> amiiboKey ns (es ! j) = Inr k \<and> checkedId (es ! j)
     \<and> (k \<in> seen \<or> Inr k \<in> amiiboKey ns ` set (take j es)))"
proof (induction es arbitrary: seen)
  case Nil
  then show ?case by simp
next
  case (Cons e es)
  show ?case
  proof (cases "amiiboKey ns e")
    case (Inl err)
    then show ?thesis
      using amiiboKey_no_duplicate_error[of ns e]
      by (auto simp: validateAmiibo_Cons ex_less_Cons simp del: validateAmiibo.simps)
  next
    case (Inr key)
    show ?thesis
    proof (cases "checkedId e \<and> key \<in> seen")
      case True
      then show ?thesis
        using Inr by (auto simp: validateAmiibo_Cons ex_less_Cons simp del: validateAmiibo.simps)
    next
      case False
      have "(\<exists>k. validateAmiibo ns seen (e # es) = Inl (DuplicateRecord Amiibo k))
            \<longleftrightarrow> (\<exists>k. validateAmiibo ns (insert key seen) es = Inl (DuplicateRecord Amiibo k))"
        using Inr False by (auto simp: validateAmiibo_Cons simp del: validateAmiibo.simps)
      also note Cons.IH
      finally show ?thesis
        using Inr False by (simp add: ex_less_Cons, blast)
    qed
  qed
qed

lemma amiiboKey_strings:
  "isStr (idHead e) \<Longrightarrow> isStr (idTail e) \<Longrightarrow>
   amiiboKey ns e = Inr (strOf (idHead e) @ ''-'' @ strOf (idTail e))"
  by (cases "idHead e"; cases "idTail e") (simp_all add: amiiboKey_def)

lemma dash_split:
  assumes "h1 @ ''-'' @ t1 = h2 @ ''-'' @ t2" "CHR ''-'' \<notin> set h1" "CHR ''-'' \<notin> set h2"
  shows "h1 = h2 \<and> t1 = t2"
proof -
  have "takeWhile (\<lambda>c. c \<noteq> CHR ''-'') (h @ ''-'' @ t) = h" if "CHR ''-'' \<notin> set h" for h t :: string
    using that by (induction h) auto
  then have "h1 = h2"
    using assms by metis
  then show ?thesis using assms(1) by simp
qed

lemma isStr_strOf: "isStr v \<Longrightarrow> v = JStr (strOf v)"
  by (cases v) auto

lemma validateNoDuplicates_amiibo:
  "(\<exists>k. validateNoDuplicates ns am sk = Inl (DuplicateRecord Amiibo k))
   \<longleftrightarrow> (\<exists>k. validateAmiibo ns {} am = Inl (DuplicateRecord Amiibo k))"
proof -
  have "validateSkylanders ns seen sk \<noteq> Inl (DuplicateRecord Amiibo k)" for seen k
    by (induction sk arbitrary: seen) (auto simp: Let_def)
  then show ?thesis
    by (auto simp: validateNoDuplicates_def split: sum.splits)
qed

text \<open>
  C1, amended. In a catalog whose \<^verbatim>\<open>head\<close> and \<^verbatim>\<open>tail\<close> are strings (or absent, or
  \<^verbatim>\<open>null\<close>), validation fails with \<^verbatim>\<open>DuplicateRecord\<close> for the amiibo namespace exactly
  when some record whose head and tail are both different from the empty string has
  the key \<^verbatim>\<open>head-tail\<close> of an earlier record; and when no head contains the
  separator \<^verbatim>\<open>-\<close>, exactly when two records share the identity pair and neither
  component of it is the empty string. A repeated pair with an empty head or an empty
  tail is exempt.
\<close>

theorem validateNoDuplicates_amiibo_rule:
  assumes strs: "\<forall>e\<in>set am. isStr (idHead e) \<and> isStr (idTail e)"
  shows "((\<exists>k. validateNoDuplicates ns am sk = Inl (DuplicateRecord Amiibo k)) \<longleftrightarrow>
            (\<exists>i j. i < j \<and> j < length am \<and> amiiboKey ns (am ! i) = amiiboKey ns (am ! j)
                 \<and> idHead (am ! j) \<noteq> JStr '''' \<and> idTail (am ! j) \<noteq> JStr ''''))
       \<and> ((\<forall>e\<in>set am. CHR ''-'' \<notin> set (strOf (idHead e))) \<longrightarrow>
           ((\<exists>k. validateNoDuplicates ns am sk = Inl (DuplicateRecord Amiibo k)) \<longleftrightarrow>
            (\<exists>i j. i < j \<and> j < length am
                 \<and> idHead (am ! i) = idHead (am ! j) \<and> idTail (am ! i) = idTail (am ! j)
                 \<and> idHead (am ! j) \<noteq> JStr '''' \<and> idTail (am ! j) \<noteq> JStr '''')))"
proof -
  have ok: "\<exists>k'. amiiboKey ns x = Inr k'" if "x \<in> set am" for x
    using strs that amiiboKey_strings by blast
  have keys: "(\<exists>k. validateNoDuplicates ns am sk = Inl (DuplicateRecord Amiibo k)) \<longleftrightarrow>
            (\<exists>i j. i < j \<and> j < length am \<and> amiiboKey ns (am ! i) = amiiboKey ns (am ! j)
                 \<and> idHead (am ! j) \<noteq> JStr '''' \<and> idTail (am ! j) \<noteq> JStr '''')"
    (is "?L \<longleftrightarrow> ?R")
  proof
    assume ?L
    then obtain j k where j: "j < length am" "amiiboKey ns (am ! j) = Inr k" "checkedId (am ! j)"
        "Inr k \<in> amiiboKey ns ` set (take j am)"
      unfolding validateNoDuplicates_amiibo validateAmiibo_duplicate_take by auto
    from j(4) obtain i where "i < j" "amiiboKey ns (am ! i) = Inr k"
      using j(1) by (auto simp: in_set_conv_nth)
    then have "i < j \<and> j < length am \<and> amiiboKey ns (am ! i) = amiiboKey ns (am ! j)
        \<and> idHead (am ! j) \<noteq> JStr [] \<and> idTail (am ! j) \<noteq> JStr []"
      using j(1,2,3) by (simp add: checkedId_def)
    then show ?R by blast
  next
    assume ?R
    then obtain i j where ij: "i < j" "j < length am" "amiiboKey ns (am ! i) = amiiboKey ns (am ! j)"
        "checkedId (am ! j)"
      by (auto simp: checkedId_def)
    obtain k where k: "amiiboKey ns (am ! j) = Inr k"
      using ok[of "am ! j"] ij(2) by auto
    have "am ! i \<in> set (take j am)"
      using ij(1,2) by (auto simp: in_set_conv_nth intro!: exI[of _ i])
    then have "Inr k \<in> amiiboKey ns ` set (take j am)"
      using ij(3) k by (metis imageI)
    moreover have "\<forall>x\<in>set (take j am). \<exists>k'. amiiboKey ns x = Inr k'"
      using ok by (meson in_set_takeD)
    ultimately show ?L
      unfolding validateNoDuplicates_amiibo validateAmiibo_duplicate_take
      using ij k by blast
  qed
  have pairs: "amiiboKey ns (am ! i) = amiiboKey ns (am ! j)
       \<longleftrightarrow> idHead (am ! i) = idHead (am ! j) \<and> idTail (am ! i) = idTail (am ! j)"
    if "\<forall>e\<in>set am. CHR ''-'' \<notin> set (strOf (idHead e))" "i < j" "j < length am" for i j
  proof -
    have mem: "am ! i \<in> set am" "am ! j \<in> set am" using that by auto
    then have s: "isStr (idHead (am ! i))" "isStr (idTail (am ! i))"
        "isStr (idHead (am ! j))" "isStr (idTail (am ! j))"
      using strs by auto
    have d: "CHR ''-'' \<notin> set (strOf (idHead (am ! i)))" "CHR ''-'' \<notin> set (strOf (idHead (am ! j)))"
      using that(1) mem by auto
    show ?thesis
    proof
      assume "amiiboKey ns (am ! i) = amiiboKey ns (am ! j)"
      then have eq: "strOf (idHead (am ! i)) @ ''-'' @ strOf (idTail (am ! i))
                   = strOf (idHead (am ! j)) @ ''-'' @ strOf (idTail (am ! j))"
        using s by (simp add: amiiboKey_strings)
      have "strOf (idHead (am ! i)) = strOf (idHead (am ! j))
               \<and> strOf (idTail (am ! i)) = strOf (idTail (am ! j))"
        by (rule dash_split[OF eq d])
      then show "idHead (am ! i) = idHead (am ! j) \<and> idTail (am ! i) = idTail (am ! j)"
        using s isStr_strOf by metis
    next
      assume "idHead (am ! i) = idHead (am ! j) \<and> idTail (am ! i) = idTail (am ! j)"
      then show "amiiboKey ns (am ! i) = amiiboKey ns (am ! j)"
        by (simp add: amiiboKey_def cong: sum.case_cong)
    qed
  qed
  show ?thesis
    using keys pairs by blast
qed


lemma skylanderKey_fallback:
  "lacksIdentity e \<Longrightarrow> skylanderKey ns e = ''figureId-variant:?-?''"
  by (simp add: lacksIdentity_def skylanderKey_def)

lemma validateSkylanders_repeat:
  "j < length sk \<Longrightarrow> skylanderKey ns (sk ! j) \<in> seen \<union> skylanderKey ns ` set (take j sk) \<Longrightarrow>
   \<exists>k. validateSkylanders ns seen sk = Inl (DuplicateRecord Skylander k)"
proof (induction sk arbitrary: seen j)
  case Nil
  then show ?case by simp
next
  case (Cons e es)
  show ?case
  proof (cases "skylanderKey ns e \<in> seen")
    case True
    then show ?thesis by (simp add: Let_def)
  next
    case False
    show ?thesis
    proof (cases j)
      case 0
      then show ?thesis using Cons.prems False by simp
    next
      case (Suc j')
      then have "j' < length es"
        and "skylanderKey ns (es ! j') \<in> insert (skylanderKey ns e) seen \<union> skylanderKey ns ` set (take j' es)"
        using Cons.prems by auto
      from Cons.IH[OF this] show ?thesis
        using False by (simp add: Let_def)
    qed
  qed
qed

lemma validateSkylanders_first_repeat:
  "j < length sk \<Longrightarrow> distinct (map (skylanderKey ns) (take j sk)) \<Longrightarrow>
   seen \<inter> skylanderKey ns ` set (take j sk) = {} \<Longrightarrow>
   skylanderKey ns (sk ! j) \<in> seen \<union> skylanderKey ns ` set (take j sk) \<Longrightarrow>
   validateSkylanders ns seen sk = Inl (DuplicateRecord Skylander (skylanderKey ns (sk ! j)))"
proof (induction sk arbitrary: seen j)
  case Nil
  then show ?case by simp
next
  case (Cons e es)
  show ?case
  proof (cases j)
    case 0
    then show ?thesis using Cons.prems by (simp add: Let_def)
  next
    case (Suc j')
    have notin: "skylanderKey ns e \<notin> seen"
      using Cons.prems(3) Suc by auto
    have "j' < length es"
      and "distinct (map (skylanderKey ns) (take j' es))"
      and "insert (skylanderKey ns e) seen \<inter> skylanderKey ns ` set (take j' es) = {}"
      and "skylanderKey ns (es ! j') \<in> insert (skylanderKey ns e) seen \<union> skylanderKey ns ` set (take j' es)"
      using Cons.prems Suc by auto
    from Cons.IH[OF this] show ?thesis
      using notin Suc by (simp add: Let_def)
  qed
qed

text \<open>
  C10. The skylander namespace has no exemption. When two records of the skylander
  catalog, at positions \<open>i < j\<close>, each lack a finite numeric \<^verbatim>\<open>sig\<close>, \<^verbatim>\<open>figureId\<close>
  and \<^verbatim>\<open>variant\<close>, both have the fallback key \<^verbatim>\<open>figureId-variant:?-?\<close>, and the
  skylander loop fails with \<^verbatim>\<open>DuplicateRecord\<close>: on the second of the two, naming that
  key, unless an earlier record already repeated a key. The whole validation therefore
  never succeeds, and fails with the skylander \<^verbatim>\<open>DuplicateRecord\<close> whenever the amiibo
  loop before it has passed.
\<close>

theorem skylander_no_exemption:
  assumes "i < j" and "j < length sk"
    and "lacksIdentity (sk ! i)" and "lacksIdentity (sk ! j)"
  shows "skylanderKey ns (sk ! i) = ''figureId-variant:?-?''
       \<and> skylanderKey ns (sk ! j) = ''figureId-variant:?-?''
       \<and> (\<exists>k. validateSkylanders ns {} sk = Inl (DuplicateRecord Skylander k))
       \<and> (distinct (map (skylanderKey ns) (take j sk)) \<longrightarrow>
            validateSkylanders ns {} sk = Inl (DuplicateRecord Skylander ''figureId-variant:?-?''))
       \<and> (\<exists>err. validateNoDuplicates ns am sk = Inl err)
       \<and> (validateAmiibo ns {} am = Inr () \<longrightarrow>
            (\<exists>k. validateNoDuplicates ns am sk = Inl (DuplicateRecord Skylander k)))"
proof -
  have ki: "skylanderKey ns (sk ! i) = ''figureId-variant:?-?''"
    and kj: "skylanderKey ns (sk ! j) = ''figureId-variant:?-?''"
    using assms(3,4) by (simp_all add: skylanderKey_fallback)
  have "sk ! i \<in> set (take j sk)"
    using assms(1,2) by (auto simp: in_set_conv_nth intro!: exI[of _ i])
  then have mem: "skylanderKey ns (sk ! j) \<in> {} \<union> skylanderKey ns ` set (take j sk)"
    using ki kj by (metis UnI2 imageI)
  have dup: "\<exists>k. validateSkylanders ns {} sk = Inl (DuplicateRecord Skylander k)"
    by (rule validateSkylanders_repeat[OF assms(2) mem])
  have first: "validateSkylanders ns {} sk = Inl (DuplicateRecord Skylander ''figureId-variant:?-?'')"
    if "distinct (map (skylanderKey ns) (take j sk))"
    using validateSkylanders_first_repeat[OF assms(2) that _ mem] kj by simp
  have all: "\<exists>err. validateNoDuplicates ns am sk = Inl err"
    using dup by (auto simp: validateNoDuplicates_def split: sum.splits)
  have sky: "\<exists>k. validateNoDuplicates ns am sk = Inl (DuplicateRecord Skylander k)"
    if "validateAmiibo ns {} am = Inr ()"
    using dup that by (simp add: validateNoDuplicates_def)
  show ?thesis
    using ki kj dup first all sky by blast
qed

theorem skylander_no_exemption_witness:
  "validateNoDuplicates showNat []
     [JObj [(''type'', JStr ''skylander''), (''name'', JStr ''A'')],
      JObj [(''type'', JStr ''skylander''), (''name'', JStr ''B'')]]
   = Inl (DuplicateRecord Skylander ''figureId-variant:?-?'')"
  using skylander_no_exemption [of 0 1
      "[JObj [(''type'', JStr ''skylander''), (''name'', JStr ''A'')],
        JObj [(''type'', JStr ''skylander''), (''name'', JStr ''B'')]]" showNat "[]"]
  by (simp add: lacksIdentity_def finiteNumber_def validateNoDuplicates_def skylanderKey_def)

text \<open>
  C1, as the claim states it, fails: a pair repeated with exactly one empty component
  (\<^verbatim>\<open>head = "04"\<close>, \<^verbatim>\<open>tail = ""\<close>) does not raise; the guard exempts a record as
  soon as one of the two is empty.
\<close>

theorem one_empty_component_is_exempt:
  "validateNoDuplicates showNat
     [JObj [(''head'', JStr ''04''), (''tail'', JStr '''')],
      JObj [(''head'', JStr ''04''), (''tail'', JStr '''')]] [] = Inr ()"
  by (simp add: validateNoDuplicates_def)

theorem validateNoDuplicates_amiibo_rule_witness:
  "\<exists>i j. i < j
     \<and> j < length [JObj [(''head'', JStr ''04''), (''tail'', JStr ''0102030405060708'')],
                   JObj [(''head'', JStr ''04''), (''tail'', JStr ''0102030405060708'')]]
     \<and> idHead ([JObj [(''head'', JStr ''04''), (''tail'', JStr ''0102030405060708'')],
                JObj [(''head'', JStr ''04''), (''tail'', JStr ''0102030405060708'')]] ! i)
       = idHead ([JObj [(''head'', JStr ''04''), (''tail'', JStr ''0102030405060708'')],
                  JObj [(''head'', JStr ''04''), (''tail'', JStr ''0102030405060708'')]] ! j)
     \<and> idTail ([JObj [(''head'', JStr ''04''), (''tail'', JStr ''0102030405060708'')],
                JObj [(''head'', JStr ''04''), (''tail'', JStr ''0102030405060708'')]] ! i)
       = idTail ([JObj [(''head'', JStr ''04''), (''tail'', JStr ''0102030405060708'')],
                  JObj [(''head'', JStr ''04''), (''tail'', JStr ''0102030405060708'')]] ! j)
     \<and> idHead ([JObj [(''head'', JStr ''04''), (''tail'', JStr ''0102030405060708'')],
                JObj [(''head'', JStr ''04''), (''tail'', JStr ''0102030405060708'')]] ! j)
       \<noteq> JStr []
     \<and> idTail ([JObj [(''head'', JStr ''04''), (''tail'', JStr ''0102030405060708'')],
                JObj [(''head'', JStr ''04''), (''tail'', JStr ''0102030405060708'')]] ! j)
       \<noteq> JStr []"
proof -
  let ?am = "[JObj [(''head'', JStr ''04''), (''tail'', JStr ''0102030405060708'')],
              JObj [(''head'', JStr ''04''), (''tail'', JStr ''0102030405060708'')]]"
  have strs: "\<forall>e\<in>set ?am. isStr (idHead e) \<and> isStr (idTail e)"
    by (simp add: idHead_def idTail_def)
  have nodash: "\<forall>e\<in>set ?am. CHR ''-'' \<notin> set (strOf (idHead e))"
    by (simp add: idHead_def)
  have run: "validateNoDuplicates showNat ?am [] = Inl (DuplicateRecord Amiibo ''04-0102030405060708'')"
    by (simp add: validateNoDuplicates_def)
  from validateNoDuplicates_amiibo_rule [OF strs, of showNat "[]"] nodash run
  show ?thesis
    by blast
qed

section \<open>Properties of the patch classification\<close>

lemma looksSky_spec: "typeTagOk e \<Longrightarrow> looksSky e = Inr (spec_skylander e)"
  by (auto simp: typeTagOk_def looksSky_def spec_skylander_def toLowerCase_def
           split: option.splits json.splits)

lemma classifyEntries_filter:
  "\<forall>e\<in>set es. typeTagOk e \<Longrightarrow>
   classifyEntries (am, sk) es =
     Inr (am @ filter (\<lambda>e. \<not> spec_skylander e) es, sk @ filter spec_skylander es)"
  by (induction es arbitrary: am sk) (simp_all add: looksSky_spec)

text \<open>
  C3, as the claim states it, fails: the type tag has no precedence over the numeric
  fields. A record tagged \<^verbatim>\<open>amiibo\<close> that carries a numeric \<^verbatim>\<open>figureId\<close> is
  classified as skylander.
\<close>

theorem amiibo_tag_with_figureId_is_skylander:
  "looksSky (JObj [(''type'', JStr ''amiibo''), (''figureId'', JNum (Finite 1200))]) = Inr True"
  by (simp add: looksSky_def isNumber_def)

text \<open>
  C3, amended. On records whose type tag is absent, \<^verbatim>\<open>null\<close> or a string the
  classification is defined, and it is skylander exactly when the tag equals
  \<^verbatim>\<open>skylander\<close> up to the case of its letters or a numeric \<^verbatim>\<open>figureId\<close>,
  \<^verbatim>\<open>variant\<close> or \<^verbatim>\<open>sig\<close> is carried, amiibo otherwise: the two tests are
  alternatives, so a numeric field makes a skylander whatever the tag says. The loop
  over a patch file appends the skylanders and the others to the two lists, in order.
\<close>

theorem classification_rule:
  assumes "\<forall>e\<in>set es. typeTagOk e"
  shows "(\<forall>e\<in>set es. looksSky e = Inr (spec_skylander e))
       \<and> (\<forall>e\<in>set es. isNumber (getProp e ''figureId'') \<or> isNumber (getProp e ''variant'')
              \<or> isNumber (getProp e ''sig'') \<longrightarrow> looksSky e = Inr True)
       \<and> classifyEntries (am, sk) es =
           Inr (am @ filter (\<lambda>e. \<not> spec_skylander e) es, sk @ filter spec_skylander es)"
  using assms classifyEntries_filter [of es am sk]
  by (auto simp: looksSky_spec spec_skylander_def)

theorem classification_rule_witness:
  "classifyEntries ([], [])
     [JObj [(''figureId'', JNum (Finite 1200)), (''variant'', JNum (Finite 0))],
      JObj [(''head'', JStr ''04''), (''tail'', JStr ''0102030405060708'')],
      JObj [(''type'', JStr ''Skylander'')],
      JNull]
   = Inr ([JObj [(''head'', JStr ''04''), (''tail'', JStr ''0102030405060708'')], JNull],
          [JObj [(''figureId'', JNum (Finite 1200)), (''variant'', JNum (Finite 0))],
           JObj [(''type'', JStr ''Skylander'')]])"
  using classification_rule [of
     "[JObj [(''figureId'', JNum (Finite 1200)), (''variant'', JNum (Finite 0))],
      JObj [(''head'', JStr ''04''), (''tail'', JStr ''0102030405060708'')],
      JObj [(''type'', JStr ''Skylander'')],
      JNull]" "[]" "[]"]
  by (simp add: typeTagOk_def spec_skylander_def isNumber_def toLowerCase_def lowerChar_def)

end
